theory Spec2Isabelle
  imports Complex_Main
begin

section \<open>Strings\<close>

text \<open>
  A JavaScript string is a sequence of UTF-16 code units. A \<^typ>\<open>char\<close> stands for the code
  unit of the same number, so the model covers the strings whose code units lie below 256.
  Among those, the white space of \<^verbatim>\<open>String.prototype.trim\<close> and of the regular
  expression class \<^verbatim>\<open>\s\<close> is TAB, LF, VT, FF, CR, SPACE and NO-BREAK SPACE.
\<close>

abbreviation LF :: char where "LF \<equiv> CHR 0x0A"
abbreviation CR :: char where "CR \<equiv> CHR 0x0D"
abbreviation DQUOTE :: char where "DQUOTE \<equiv> CHR 0x22"

definition is_ws :: "char \<Rightarrow> bool" where
  "is_ws c = (c = CHR 0x09 \<or> c = LF \<or> c = CHR 0x0B \<or> c = CHR 0x0C \<or> c = CR
              \<or> c = CHR 0x20 \<or> c = CHR 0xA0)"

definition trim :: "string \<Rightarrow> string" where
  "trim s = rev (dropWhile is_ws (rev (dropWhile is_ws s)))"

definition startsWith :: "string \<Rightarrow> string \<Rightarrow> bool" where
  "startsWith s p = (take (length p) s = p)"

definition endsWith :: "string \<Rightarrow> string \<Rightarrow> bool" where
  "endsWith s p = (length p \<le> length s \<and> drop (length s - length p) s = p)"

text \<open>
  \<^verbatim>\<open>str.split(/\r?\n/)\<close>: a line ends at LF or at CR LF; a CR that no LF follows stays
  in its line. The empty string splits into one empty line.
\<close>

fun split_lines :: "string \<Rightarrow> string list" where
  "split_lines [] = [[]]"
| "split_lines [c] = (if c = LF then [[], []] else [[c]])"
| "split_lines (c # d # cs) =
     (if c = LF then [] # split_lines (d # cs)
      else if c = CR \<and> d = LF then [] # split_lines cs
      else (case split_lines (d # cs) of [] \<Rightarrow> [[c]] | l # ls \<Rightarrow> (c # l) # ls))"

text \<open>\<^verbatim>\<open>lines.join('\n')\<close>\<close>

fun join_lines :: "string list \<Rightarrow> string" where
  "join_lines [] = []"
| "join_lines [l] = l"
| "join_lines (l # m # ls) = l @ LF # join_lines (m # ls)"

text \<open>
  The block prefixes, tested on a trimmed line: \<^verbatim>\<open>/^h[1-3]\s/i\<close>, one heading level
  \<^verbatim>\<open>/^h1\s/i\<close>, the bullet \<^verbatim>\<open>/^[+\-*]\s/\<close> and the numbered item \<^verbatim>\<open>/^#\s/\<close>.
\<close>

definition is_heading :: "string \<Rightarrow> bool" where
  "is_heading t = (case t of
       a # b # c # _ \<Rightarrow> (a = CHR ''h'' \<or> a = CHR ''H'')
          \<and> (b = CHR ''1'' \<or> b = CHR ''2'' \<or> b = CHR ''3'') \<and> is_ws c
     | _ \<Rightarrow> False)"

definition is_heading_level :: "char \<Rightarrow> string \<Rightarrow> bool" where
  "is_heading_level n t = (case t of
       a # b # c # _ \<Rightarrow> (a = CHR ''h'' \<or> a = CHR ''H'') \<and> b = n \<and> is_ws c
     | _ \<Rightarrow> False)"

definition is_bullet :: "string \<Rightarrow> bool" where
  "is_bullet t = (case t of
       a # b # _ \<Rightarrow> (a = CHR ''+'' \<or> a = CHR ''-'' \<or> a = CHR ''*'') \<and> is_ws b
     | _ \<Rightarrow> False)"

definition isOrderedList :: "string \<Rightarrow> bool" where
  "isOrderedList t = (case t of a # b # _ \<Rightarrow> a = CHR ''#'' \<and> is_ws b | _ \<Rightarrow> False)"

section \<open>Inline rich-text renderer: the block structure\<close>

text \<open>
  \<^verbatim>\<open>FormattedCell\<close> maps every line of a cell to one block element, threading the
  ordered-list counter \<^verbatim>\<open>olCount\<close> through the lines. A block carries the text that the
  source hands to \<^verbatim>\<open>parseColor\<close> for the inline spans; a paragraph keeps the untrimmed
  line. The empty text renders nothing (\<^verbatim>\<open>null\<close>).
\<close>

datatype block =
    Spacer
  | H1 string | H2 string | H3 string
  | OrderedItem nat string
  | BulletItem string
  | Paragraph string

definition render_line :: "nat \<Rightarrow> string \<Rightarrow> block \<times> nat" where
  "render_line olCount line =
     (let trimmed = trim line;
          olCount1 = (if \<not> isOrderedList trimmed \<and> trimmed \<noteq> [] then 0 else olCount)
      in if trimmed = [] then (Spacer, olCount1)
         else if is_heading_level (CHR ''1'') trimmed then (H1 (drop 3 trimmed), olCount1)
         else if is_heading_level (CHR ''2'') trimmed then (H2 (drop 3 trimmed), olCount1)
         else if is_heading_level (CHR ''3'') trimmed then (H3 (drop 3 trimmed), olCount1)
         else if isOrderedList trimmed
           then (OrderedItem (olCount1 + 1) (drop 2 trimmed), olCount1 + 1)
         else if is_bullet trimmed then (BulletItem (drop 2 trimmed), olCount1)
         else (Paragraph line, olCount1))"

fun render_lines :: "nat \<Rightarrow> string list \<Rightarrow> block list" where
  "render_lines olCount [] = []"
| "render_lines olCount (line # lines) =
     fst (render_line olCount line) # render_lines (snd (render_line olCount line)) lines"

definition FormattedCell :: "string \<Rightarrow> block list option" where
  "FormattedCell str = (if str = [] then None else Some (render_lines 0 (split_lines str)))"

text \<open>The value of the counter after a run of lines.\<close>

definition olCount_after :: "nat \<Rightarrow> string list \<Rightarrow> nat" where
  "olCount_after olCount lines = fold (\<lambda>line c. snd (render_line c line)) lines olCount"

text \<open>
  The lines of a cell by their shape, read character by character. A blank line holds
  white space only. A numbered-list line is, after its leading white space, a \<^verbatim>\<open>#\<close>,
  one white-space character and then text that is not all white space.
\<close>

definition blank_line :: "string \<Rightarrow> bool" where
  "blank_line l = list_all is_ws l"

definition numbered_line :: "string \<Rightarrow> bool" where
  "numbered_line l =
     (case dropWhile is_ws l of
        a # b # rest \<Rightarrow> a = CHR ''#'' \<and> is_ws b \<and> \<not> list_all is_ws rest
      | _ \<Rightarrow> False)"

section \<open>Cell formatting mutator\<close>

datatype format_type = Bold | Italic | Color

text \<open>
  \<^verbatim>\<open>s.replace(/^\*|\*$/g, '')\<close> removes one leading and one trailing asterisk;
  \<^verbatim>\<open>s.replace(/^_+|_+$/g, '')\<close> removes every leading and every trailing underscore.
\<close>

definition strip_star :: "string \<Rightarrow> string" where
  "strip_star s =
     (let s1 = (if startsWith s ''*'' then tl s else s)
      in if endsWith s1 ''*'' then butlast s1 else s1)"

definition strip_underscores :: "string \<Rightarrow> string" where
  "strip_underscores s =
     rev (dropWhile (\<lambda>c. c = CHR ''_'') (rev (dropWhile (\<lambda>c. c = CHR ''_'') s)))"

text \<open>
  \<^verbatim>\<open>s.replace(/\[color=#[0-9a-fA-F]{3,6}\](.*?)\[\/color\]/g, '$1')\<close>, scanned from the
  left. \<open>match_color\<close> matches the expression at the head of its argument and gives
  the captured text with the length of the whole match: an opening tag with three to six
  hexadecimal digits, then the shortest text without a line terminator that a closing tag
  follows. After a match the scan goes on behind it.
\<close>

definition is_hex :: "char \<Rightarrow> bool" where
  "is_hex c = (let n = (of_char c :: nat)
     in (48 \<le> n \<and> n \<le> 57) \<or> (97 \<le> n \<and> n \<le> 102) \<or> (65 \<le> n \<and> n \<le> 70))"

fun find_close :: "string \<Rightarrow> (string \<times> nat) option" where
  "find_close [] = None"
| "find_close (c # cs) =
     (if startsWith (c # cs) ''[/color]'' then Some ([], 8)
      else if c = LF \<or> c = CR then None
      else (case find_close cs of None \<Rightarrow> None | Some (inner, n) \<Rightarrow> Some (c # inner, Suc n)))"

definition match_color :: "string \<Rightarrow> (string \<times> nat) option" where
  "match_color s =
     (if startsWith s ''[color=#''
      then (let r = drop 8 s; h = length (takeWhile is_hex r); r1 = drop h r
            in if 3 \<le> h \<and> h \<le> 6 \<and> startsWith r1 '']''
               then (case find_close (tl r1) of None \<Rightarrow> None
                     | Some (inner, n) \<Rightarrow> Some (inner, 8 + h + 1 + n))
               else None)
      else None)"

fun strip_color_from :: "nat \<Rightarrow> string \<Rightarrow> string" where
  "strip_color_from skip [] = []"
| "strip_color_from (Suc skip) (c # cs) = strip_color_from skip cs"
| "strip_color_from 0 (c # cs) =
     (case match_color (c # cs) of
        Some (inner, n) \<Rightarrow> inner @ strip_color_from (n - 1) cs
      | None \<Rightarrow> c # strip_color_from 0 cs)"

definition strip_color :: "string \<Rightarrow> string" where
  "strip_color s = strip_color_from 0 s"

text \<open>
  One line of a selected cell in \<^verbatim>\<open>applyFormat\<close>: the block prefix of the trimmed line
  is held aside (a line without one is kept untrimmed), the rest is toggled or wrapped,
  and the prefix is put back. \<open>ftype\<close> and \<open>value\<close> are the arguments
  \<^verbatim>\<open>type\<close> and \<^verbatim>\<open>value\<close> of the source; a missing or empty \<^verbatim>\<open>value\<close> leaves the
  text of a \<^verbatim>\<open>color\<close> request as it is.
\<close>

definition formatLine :: "format_type \<Rightarrow> string option \<Rightarrow> string \<Rightarrow> string" where
  "formatLine ftype value line =
     (let trimmed = trim line;
          (prefix, text) =
            (if is_heading trimmed then (take 3 trimmed, drop 3 trimmed)
             else if is_bullet trimmed then (take 2 trimmed, drop 2 trimmed)
             else if isOrderedList trimmed then (take 2 trimmed, drop 2 trimmed)
             else ([], line));
          newText =
            (case ftype of
               Bold \<Rightarrow>
                 if startsWith (trim text) ''*'' \<and> endsWith (trim text) ''*''
                 then strip_star text else ''*'' @ text @ ''*''
             | Italic \<Rightarrow>
                 if startsWith (trim text) ''_'' \<and> endsWith (trim text) ''_''
                 then strip_underscores text else ''_'' @ text @ ''_''
             | Color \<Rightarrow>
                 (case value of
                    None \<Rightarrow> text
                  | Some v \<Rightarrow> if v = [] then text
                      else ''[color='' @ v @ '']'' @ strip_color text @ ''[/color]''))
      in prefix @ newText)"

definition formatCell :: "format_type \<Rightarrow> string option \<Rightarrow> string \<Rightarrow> string" where
  "formatCell ftype value content =
     join_lines (map (formatLine ftype value) (split_lines content))"

text \<open>
  The table model of \<^verbatim>\<open>types.ts\<close>. A \<^verbatim>\<open>TableRow\<close> is a plain object with the
  property \<^verbatim>\<open>id\<close> and one property per column key, all in one name space: a map from
  property names to strings. The values read from it are strings, \<^verbatim>\<open>undefined\<close> for a
  property the row does not have, and one object: under the name \<^verbatim>\<open>__proto__\<close> every
  plain object answers with its prototype, and an assignment of a string to that name is
  ignored. The other names that the prototype defines are not modelled: a row that does
  not own such a property reads as \<^verbatim>\<open>undefined\<close> here.
\<close>

datatype js_value = Null | Undefined | Str string | Obj

datatype column_type = Text | Number | Currency | Date | Tag

record TableColumn =
  key :: string
  label :: string
  type :: column_type

type_synonym TableRow = "string \<rightharpoonup> string"

definition get_prop :: "TableRow \<Rightarrow> string \<Rightarrow> js_value" where
  "get_prop row k =
     (if k = ''__proto__'' then Obj
      else (case row k of None \<Rightarrow> Undefined | Some v \<Rightarrow> Str v))"

definition set_prop :: "TableRow \<Rightarrow> string \<Rightarrow> string \<Rightarrow> TableRow" where
  "set_prop row k v = (if k = ''__proto__'' then row else row(k \<mapsto> v))"

text \<open>\<^verbatim>\<open>String(v)\<close>, which is also what a template string and \<^verbatim>\<open>v.toString()\<close> print.\<close>

definition toString :: "js_value \<Rightarrow> string" where
  "toString v =
     (case v of
        Null \<Rightarrow> ''null''
      | Undefined \<Rightarrow> ''undefined''
      | Str s \<Rightarrow> s
      | Obj \<Rightarrow> ''[object Object]'')"

text \<open>\<^verbatim>\<open>row.id\<close> in a template string, and \<^verbatim>\<open>String(row[k] || '')\<close>.\<close>

definition row_id :: "TableRow \<Rightarrow> string" where
  "row_id row = toString (get_prop row ''id'')"

definition cellId :: "TableRow \<Rightarrow> TableColumn \<Rightarrow> string" where
  "cellId row col = row_id row @ ''-'' @ key col"

definition cell_text :: "TableRow \<Rightarrow> string \<Rightarrow> string" where
  "cell_text row k =
     (case get_prop row k of
        Null \<Rightarrow> []
      | Undefined \<Rightarrow> []
      | Str s \<Rightarrow> s
      | Obj \<Rightarrow> toString Obj)"

text \<open>
  \<^verbatim>\<open>applyFormat\<close>: with an empty selection nothing happens; otherwise every row is
  copied, the columns are visited in order, and each cell whose id
  \<^verbatim>\<open>`${row.id}-${col.key}`\<close> is selected is rewritten in the copy. The cell id is built
  from the row as it was; the text is read from the copy.
\<close>

fun format_columns ::
  "format_type \<Rightarrow> string option \<Rightarrow> string set \<Rightarrow> TableRow \<Rightarrow> TableColumn list
    \<Rightarrow> TableRow \<times> bool \<Rightarrow> TableRow \<times> bool" where
  "format_columns ftype value selectedCells row [] acc = acc"
| "format_columns ftype value selectedCells row (col # cols) (newRow, modified) =
     (if cellId row col \<in> selectedCells
      then format_columns ftype value selectedCells row cols
             (set_prop newRow (key col) (formatCell ftype value (cell_text newRow (key col))),
              True)
      else format_columns ftype value selectedCells row cols (newRow, modified))"

definition format_row ::
  "format_type \<Rightarrow> string option \<Rightarrow> TableColumn list \<Rightarrow> string set \<Rightarrow> TableRow \<Rightarrow> TableRow" where
  "format_row ftype value cols selectedCells row =
     (let (newRow, modified) = format_columns ftype value selectedCells row cols (row, False)
      in if modified then newRow else row)"

definition applyFormat ::
  "format_type \<Rightarrow> string option \<Rightarrow> TableColumn list \<Rightarrow> string set \<Rightarrow> TableRow list
    \<Rightarrow> TableRow list" where
  "applyFormat ftype value cols selectedCells tableRows =
     (if selectedCells = {} then tableRows
      else map (format_row ftype value cols selectedCells) tableRows)"

section \<open>Column type inference\<close>

text \<open>
  \<^verbatim>\<open>Number(s)\<close> on a string is the conversion \<^verbatim>\<open>StringToNumber\<close> of ECMAScript. The
  inference only asks whether the result is \<^verbatim>\<open>NaN\<close>, and the specification speaks of
  finite numbers, so the model computes the class of the result: not a number, an
  infinity, or a finite number. The string is trimmed; the empty string is zero; a
  literal is a binary, octal or hexadecimal integer without sign, or a decimal literal
  with an optional sign: \<^verbatim>\<open>Infinity\<close>, or digits with an optional fraction and an
  optional exponent. A literal whose value is at least \<open>2\<^sup>1\<^sup>0\<^sup>2\<^sup>4 - 2\<^sup>9\<^sup>7\<^sup>0\<close> rounds to an
  infinity.
\<close>

datatype js_number = NaN | Infinite | Finite

definition isNaN :: "js_number \<Rightarrow> bool" where
  "isNaN x = (x = NaN)"

definition is_digit :: "char \<Rightarrow> bool" where
  "is_digit c = (48 \<le> (of_char c :: nat) \<and> (of_char c :: nat) \<le> 57)"

definition digit_value :: "char \<Rightarrow> nat" where
  "digit_value c = (let n = (of_char c :: nat)
     in if 48 \<le> n \<and> n \<le> 57 then n - 48
        else if 97 \<le> n \<and> n \<le> 102 then n - 87
        else if 65 \<le> n \<and> n \<le> 70 then n - 55
        else 0)"

definition radix_value :: "nat \<Rightarrow> string \<Rightarrow> nat" where
  "radix_value r s = foldl (\<lambda>n c. r * n + digit_value c) 0 s"

definition overflow_threshold :: nat where
  "overflow_threshold = 2 ^ 1024 - 2 ^ 970"

text \<open>The class of \<open>n * 10\<^sup>e\<close>.\<close>

definition decimal_class :: "nat \<Rightarrow> int \<Rightarrow> js_number" where
  "decimal_class n e =
     (if 0 \<le> e
      then (if overflow_threshold \<le> n * 10 ^ nat e then Infinite else Finite)
      else (if overflow_threshold * 10 ^ nat (- e) \<le> n then Infinite else Finite))"

text \<open>The optional exponent part that must end the literal.\<close>

definition exponent_part :: "string \<Rightarrow> int option" where
  "exponent_part s =
     (case s of
        [] \<Rightarrow> Some 0
      | c # r \<Rightarrow>
          if c = CHR ''e'' \<or> c = CHR ''E''
          then (let neg = startsWith r ''-'';
                    ds = (if startsWith r ''+'' \<or> startsWith r ''-'' then tl r else r)
                in if ds \<noteq> [] \<and> list_all is_digit ds
                   then Some (if neg then - int (radix_value 10 ds) else int (radix_value 10 ds))
                   else None)
          else None)"

definition unsigned_decimal :: "string \<Rightarrow> js_number" where
  "unsigned_decimal s =
     (if s = ''Infinity'' then Infinite
      else (let ip = takeWhile is_digit s;
                r1 = dropWhile is_digit s;
                dot = startsWith r1 ''.'';
                fp = (if dot then takeWhile is_digit (tl r1) else []);
                r2 = (if dot then dropWhile is_digit (tl r1) else r1)
            in if ip = [] \<and> fp = [] then NaN
               else (case exponent_part r2 of
                       None \<Rightarrow> NaN
                     | Some e \<Rightarrow> decimal_class (radix_value 10 (ip @ fp)) (e - int (length fp)))))"

definition non_decimal :: "nat \<Rightarrow> string \<Rightarrow> js_number" where
  "non_decimal r ds =
     (if ds \<noteq> [] \<and> list_all (\<lambda>c. (is_digit c \<or> is_hex c) \<and> digit_value c < r) ds
      then (if overflow_threshold \<le> radix_value r ds then Infinite else Finite)
      else NaN)"

definition StringToNumber :: "string \<Rightarrow> js_number" where
  "StringToNumber s =
     (let t = trim s
      in if t = [] then Finite
         else if startsWith t ''0x'' \<or> startsWith t ''0X'' then non_decimal 16 (drop 2 t)
         else if startsWith t ''0o'' \<or> startsWith t ''0O'' then non_decimal 8 (drop 2 t)
         else if startsWith t ''0b'' \<or> startsWith t ''0B'' then non_decimal 2 (drop 2 t)
         else if startsWith t ''+'' \<or> startsWith t ''-'' then unsigned_decimal (tl t)
         else unsigned_decimal t)"

text \<open>
  The errors the parser can end with: the two it throws itself, with their messages, and
  the \<^verbatim>\<open>TypeError\<close> of the runtime when a method is called on a value that lacks it.
\<close>

datatype error = Error string | TypeError

text \<open>
  \<^verbatim>\<open>detectType\<close> first drops \<^verbatim>\<open>null\<close>, \<^verbatim>\<open>undefined\<close> and the empty string.
\<close>

definition validValues :: "js_value list \<Rightarrow> js_value list" where
  "validValues values = filter (\<lambda>v. v \<noteq> Null \<and> v \<noteq> Undefined \<and> v \<noteq> Str []) values"

text \<open>\<^verbatim>\<open>v.replace(/[$,]/g, '')\<close>\<close>

definition strip_currency :: "string \<Rightarrow> string" where
  "strip_currency v = filter (\<lambda>c. c \<noteq> CHR ''$'' \<and> c \<noteq> CHR '','') v"

text \<open>
  \<^verbatim>\<open>validValues.every(v => !isNaN(Number(v.replace(/[$,]/g, ''))))\<close>: the values are
  visited in order, the first string that is not a number ends the visit with
  \<^verbatim>\<open>false\<close>, and a value without the method \<^verbatim>\<open>replace\<close> ends it with a
  \<^verbatim>\<open>TypeError\<close>.
\<close>

fun isNumber :: "js_value list \<Rightarrow> error + bool" where
  "isNumber [] = Inr True"
| "isNumber (Str s # vs) =
     (if isNaN (StringToNumber (strip_currency s)) then Inr False else isNumber vs)"
| "isNumber (v # vs) = Inl TypeError"

text \<open>
  \<^verbatim>\<open>detectType\<close>. What \<^verbatim>\<open>Date.parse\<close> accepts beyond the ISO format is left to the
  engine by ECMAScript, so the function is a parameter here: it gives the class of the
  time value for a string. The size of \<^verbatim>\<open>new Set(validValues)\<close> is the number of distinct
  values, and \<^verbatim>\<open>size < length / 2\<close> is a comparison of real numbers.
\<close>

definition detectType :: "(string \<Rightarrow> js_number) \<Rightarrow> js_value list \<Rightarrow> error + column_type" where
  "detectType Date_parse values =
     (let vs = validValues values
      in if vs = [] then Inr Text
         else (case isNumber vs of
                 Inl e \<Rightarrow> Inl e
               | Inr True \<Rightarrow>
                   Inr (if list_ex (\<lambda>v. CHR ''$'' \<in> set (toString v)) vs
                        then Currency else Number)
               | Inr False \<Rightarrow>
                   Inr (if list_all (\<lambda>v. \<not> isNaN (Date_parse (toString v))) vs then Date
                        else if list_all (\<lambda>v. length (toString v) < 20) vs
                                \<and> 2 * length (remdups vs) < length vs
                        then Tag
                        else Text)))"

section \<open>CSV parser\<close>

text \<open>
  The scanning loop of \<^verbatim>\<open>parseCSV\<close> reads one character \<^verbatim>\<open>char\<close> with one character
  of lookahead \<^verbatim>\<open>nextChar\<close>; \<^verbatim>\<open>i++\<close> inside the body skips the lookahead. Its state is
  the four local variables.
\<close>

record scan_state =
  rowsData :: "string list list"
  currentRow :: "string list"
  currentCell :: string
  insideQuotes :: bool

fun scan :: "string \<Rightarrow> scan_state \<Rightarrow> scan_state" where
  "scan [] st = st"
| "scan (c # cs) st =
     (if c = DQUOTE then
        (if insideQuotes st \<and> startsWith cs [DQUOTE]
         then scan (tl cs) (st\<lparr>currentCell := currentCell st @ [DQUOTE]\<rparr>)
         else scan cs (st\<lparr>insideQuotes := \<not> insideQuotes st\<rparr>))
      else if c = CHR '','' \<and> \<not> insideQuotes st then
        scan cs (st\<lparr>currentRow := currentRow st @ [currentCell st], currentCell := []\<rparr>)
      else if (c = CR \<or> c = LF) \<and> \<not> insideQuotes st then
        scan (if c = CR \<and> startsWith cs [LF] then tl cs else cs)
          (st\<lparr>rowsData := rowsData st @ [currentRow st @ [currentCell st]],
              currentRow := [], currentCell := []\<rparr>)
      else scan cs (st\<lparr>currentCell := currentCell st @ [c]\<rparr>))"

text \<open>
  A state has recorded something when a row was pushed, a cell was closed or a character
  was put into the current cell.
\<close>

definition recorded :: "scan_state \<Rightarrow> bool" where
  "recorded st = (rowsData st \<noteq> [] \<or> currentRow st \<noteq> [] \<or> currentCell st \<noteq> [])"

text \<open>The rows after the scan and the flush of a pending cell or row.\<close>

definition scan_rows :: "string \<Rightarrow> string list list" where
  "scan_rows content =
     (let st = scan content
                \<lparr>rowsData = [], currentRow = [], currentCell = [], insideQuotes = False\<rparr>
      in if currentCell st \<noteq> [] \<or> currentRow st \<noteq> []
         then rowsData st @ [currentRow st @ [currentCell st]]
         else rowsData st)"

text \<open>
  The filter \<^verbatim>\<open>r.length > 0 && (r.length > 1 || r[0] !== '')\<close> and the relaxed length
  check of a data row against the headers.
\<close>

definition valid_row :: "string list \<Rightarrow> bool" where
  "valid_row r = (r \<noteq> [] \<and> (1 < length r \<or> r ! 0 \<noteq> []))"

definition accepted_row :: "string list \<Rightarrow> string list \<Rightarrow> bool" where
  "accepted_row headers rowValues =
     (length rowValues = length headers
      \<or> (length rowValues = length headers + 1 \<and> rowValues ! length headers = []))"

text \<open>
  \<^verbatim>\<open>rowValues[idx] || ''\<close>, and the row object: it starts as \<^verbatim>\<open>{ id: generateId() }\<close>
  and receives one property per header, in header order, so a later header of the same
  name, or a header named \<^verbatim>\<open>id\<close>, overwrites what was there.
\<close>

definition nth_or_empty :: "string list \<Rightarrow> nat \<Rightarrow> string" where
  "nth_or_empty xs i = (if i < length xs then xs ! i else [])"

definition make_row :: "string \<Rightarrow> string list \<Rightarrow> string list \<Rightarrow> TableRow" where
  "make_row rid headers rowValues =
     fold (\<lambda>(h, idx) row. set_prop row h (nth_or_empty rowValues idx))
       (zip headers [0 ..< length headers]) [''id'' \<mapsto> rid]"

text \<open>
  The loop over the data rows. \<^verbatim>\<open>generateId\<close> draws a random token; \<open>ids n\<close> is the
  token of its \<open>n\<close>-th call, one call per accepted row.
\<close>

fun build_rows :: "(nat \<Rightarrow> string) \<Rightarrow> string list \<Rightarrow> string list list \<Rightarrow> TableRow list
    \<Rightarrow> TableRow list" where
  "build_rows ids headers [] acc = acc"
| "build_rows ids headers (rowValues # rest) acc =
     (if accepted_row headers rowValues
      then build_rows ids headers rest (acc @ [make_row (ids (length acc)) headers rowValues])
      else build_rows ids headers rest acc)"

text \<open>
  \<^verbatim>\<open>header.charAt(0).toUpperCase() + header.slice(1)\<close>. Among the code units below
  256 the letters with an upper case are \<^verbatim>\<open>a\<close> to \<^verbatim>\<open>z\<close>, the letters from 0xE0 to
  0xFE except the division sign 0xF7, whose upper case lies 0x20 below, and the sharp s
  0xDF, which becomes \<^verbatim>\<open>SS\<close>. The upper case of the micro sign 0xB5 and of 0xFF are
  code units above 255, which a \<^typ>\<open>char\<close> cannot hold: these two are kept as they
  are. The label is display text only.
\<close>

definition toUpperCase :: "char \<Rightarrow> string" where
  "toUpperCase c =
     (if c = CHR 0xDF then ''SS''
      else (case map_of
          (zip (''abcdefghijklmnopqrstuvwxyz''
                @ [CHR 0xE0, CHR 0xE1, CHR 0xE2, CHR 0xE3, CHR 0xE4, CHR 0xE5, CHR 0xE6, CHR 0xE7,
                   CHR 0xE8, CHR 0xE9, CHR 0xEA, CHR 0xEB, CHR 0xEC, CHR 0xED, CHR 0xEE, CHR 0xEF,
                   CHR 0xF0, CHR 0xF1, CHR 0xF2, CHR 0xF3, CHR 0xF4, CHR 0xF5, CHR 0xF6, CHR 0xF8,
                   CHR 0xF9, CHR 0xFA, CHR 0xFB, CHR 0xFC, CHR 0xFD, CHR 0xFE])
               (''ABCDEFGHIJKLMNOPQRSTUVWXYZ''
                @ [CHR 0xC0, CHR 0xC1, CHR 0xC2, CHR 0xC3, CHR 0xC4, CHR 0xC5, CHR 0xC6, CHR 0xC7,
                   CHR 0xC8, CHR 0xC9, CHR 0xCA, CHR 0xCB, CHR 0xCC, CHR 0xCD, CHR 0xCE, CHR 0xCF,
                   CHR 0xD0, CHR 0xD1, CHR 0xD2, CHR 0xD3, CHR 0xD4, CHR 0xD5, CHR 0xD6, CHR 0xD8,
                   CHR 0xD9, CHR 0xDA, CHR 0xDB, CHR 0xDC, CHR 0xDD, CHR 0xDE])) c of
        None \<Rightarrow> [c]
      | Some u \<Rightarrow> [u]))"

definition capitalize :: "string \<Rightarrow> string" where
  "capitalize h = (case h of [] \<Rightarrow> [] | c # cs \<Rightarrow> toUpperCase c @ cs)"

text \<open>
  \<^verbatim>\<open>rows.map(r => r[header])\<close>, and the columns: one per header, in order, each with
  the type inferred from its values; an error of the inference ends the parse.
\<close>

definition column_values :: "TableRow list \<Rightarrow> string \<Rightarrow> js_value list" where
  "column_values rs h = map (\<lambda>r. get_prop r h) rs"

fun build_columns ::
  "(string \<Rightarrow> js_number) \<Rightarrow> TableRow list \<Rightarrow> string list \<Rightarrow> error + TableColumn list" where
  "build_columns Date_parse rs [] = Inr []"
| "build_columns Date_parse rs (header # headers) =
     (case detectType Date_parse (column_values rs header) of
        Inl e \<Rightarrow> Inl e
      | Inr t \<Rightarrow>
          (case build_columns Date_parse rs headers of
             Inl e \<Rightarrow> Inl e
           | Inr cols \<Rightarrow> Inr (\<lparr>key = header, label = capitalize header, type = t\<rparr> # cols)))"

record ParsedTable =
  rows :: "TableRow list"
  columns :: "TableColumn list"

text \<open>The trimmed cells of the first valid row.\<close>

definition csv_headers :: "string \<Rightarrow> string list" where
  "csv_headers content = map trim (hd (filter valid_row (scan_rows content)))"

definition parseCSV ::
  "(string \<Rightarrow> js_number) \<Rightarrow> (nat \<Rightarrow> string) \<Rightarrow> string \<Rightarrow> error + ParsedTable" where
  "parseCSV Date_parse ids content =
     (let rd = scan_rows content
      in if rd = [] then Inl (Error ''File appears empty'')
         else (let validRowsData = filter valid_row rd
               in if validRowsData = [] then Inl (Error ''No valid data found'')
                  else (let headers = map trim (hd validRowsData);
                            rs = build_rows ids headers (tl validRowsData) []
                        in (case build_columns Date_parse rs headers of
                              Inl e \<Rightarrow> Inl e
                            | Inr cols \<Rightarrow> Inr \<lparr>rows = rs, columns = cols\<rparr>))))"

text \<open>
  Modelled from the spec: the generator of the CSV round-trip property, which the
  repository does not contain. A field holding a comma, a double quote, a carriage return
  or a line feed is written between double quotes with every double quote doubled; other
  fields are written as they are; the fields of a row are joined by commas and every row
  ends with a line feed, as in the spec's example
  \<^verbatim>\<open>name,age\n"Smith, John",30\n\<close>.
\<close>

fun join_cells :: "string list \<Rightarrow> string" where
  "join_cells [] = []"
| "join_cells [f] = f"
| "join_cells (f # g # fs) = f @ CHR '','' # join_cells (g # fs)"

definition csv_special :: "char \<Rightarrow> bool" where
  "csv_special c = (c = CHR '','' \<or> c = DQUOTE \<or> c = CR \<or> c = LF)"

definition csv_escape :: "string \<Rightarrow> string" where
  "csv_escape s = concat (map (\<lambda>c. if c = DQUOTE then [DQUOTE, DQUOTE] else [c]) s)"

definition csv_field :: "string \<Rightarrow> string" where
  "csv_field s = (if list_ex csv_special s then DQUOTE # csv_escape s @ [DQUOTE] else s)"

definition toCSV :: "string list list \<Rightarrow> string" where
  "toCSV m = concat (map (\<lambda>r. join_cells (map csv_field r) @ [LF]) m)"

section \<open>Paginator\<close>

text \<open>
  \<^verbatim>\<open>Array.prototype.slice(start, end)\<close> on integer arguments: a negative index counts
  from the end, both indices are clamped to the array, and an empty range gives the
  empty array.
\<close>

definition slice :: "'a list \<Rightarrow> int \<Rightarrow> int \<Rightarrow> 'a list" where
  "slice xs start end =
     (let len = int (length xs);
          k = (if start < 0 then max (len + start) 0 else min start len);
          final = (if end < 0 then max (len + end) 0 else min end len)
      in take (nat (max (final - k) 0)) (drop (nat k) xs))"

text \<open>
  The pagination loop of \<^verbatim>\<open>EditorView\<close>:
  \<^verbatim>\<open>for (let i = 0; i < tableRows.length; i += rowsPerPage)
     pages.push(tableRows.slice(i, i + rowsPerPage));\<close>
  \<^verbatim>\<open>rowsPerPage\<close> is a whole number, positive or not, as the rows-per-page integer
  of the design; nothing in the loop clamps it. (The number input can also deliver a
  fraction such as 5.5, which the model does not cover.) The loop need not end, so its
  result is optional: \<open>None\<close> stands for a computation that never returns.
\<close>

partial_function (option) paginate_loop ::
  "'a list \<Rightarrow> int \<Rightarrow> int \<Rightarrow> 'a list list \<Rightarrow> 'a list list option" where
  "paginate_loop tableRows rowsPerPage i pages =
     (if i < int (length tableRows)
      then paginate_loop tableRows rowsPerPage (i + rowsPerPage)
             (pages @ [slice tableRows i (i + rowsPerPage)])
      else Some pages)"

definition paginatedRows :: "'a list \<Rightarrow> int \<Rightarrow> 'a list list option" where
  "paginatedRows tableRows rowsPerPage = paginate_loop tableRows rowsPerPage 0 []"

text \<open>
  The reference partition used in the proofs: cut \<open>n\<close> elements off the front until
  nothing is left.
\<close>

function chunks :: "nat \<Rightarrow> 'a list \<Rightarrow> 'a list list" where
  "chunks n xs = (if n = 0 \<or> xs = [] then [] else take n xs # chunks n (drop n xs))"
  by pat_completeness auto
termination
  by (relation "measure (\<lambda>(n, xs). length xs)") auto

declare chunks.simps [simp del]

section \<open>Identifier generator\<close>

text \<open>
  \<^verbatim>\<open>Math.random().toString(36).substr(2, 9)\<close>. \<^verbatim>\<open>Math.random()\<close> gives a double in
  \<open>[0, 1)\<close>, a number \<open>k / 2\<^sup>e\<close> with \<open>k < 2\<^sup>e\<close>. \<^verbatim>\<open>toString(36)\<close> prints zero
  as \<^verbatim>\<open>0\<close> and every other number below one as \<^verbatim>\<open>0.\<close> followed by digits in base 36,
  as few as still denote the double. When the number has an expansion of at most ten
  digits in base 36 (\<open>36\<^sup>1\<^sup>0 k / 2\<^sup>e\<close> is whole), these are the digits of that
  expansion: every other text of ten digits or fewer denotes a number at least
  \<open>36\<^sup>-\<^sup>1\<^sup>0\<close> away, which is farther than the neighbouring doubles. For the other
  doubles the number of digits and the last of them depend on the engine, so the digits
  that the engine prints for such a number are a parameter, \<open>radix_digits\<close>.
\<close>

definition radix36_digit :: "nat \<Rightarrow> char" where
  "radix36_digit d = ''0123456789abcdefghijklmnopqrstuvwxyz'' ! d"

fun fraction_digits36 :: "nat \<Rightarrow> nat \<Rightarrow> nat \<Rightarrow> string" where
  "fraction_digits36 0 k e = []"
| "fraction_digits36 (Suc n) k e =
     (if k = 0 then []
      else radix36_digit (36 * k div 2 ^ e) # fraction_digits36 n (36 * k mod 2 ^ e) e)"

definition toString36 :: "(nat \<Rightarrow> nat \<Rightarrow> string) \<Rightarrow> nat \<Rightarrow> nat \<Rightarrow> string" where
  "toString36 radix_digits k e =
     (if k = 0 then ''0''
      else if 36 ^ 10 * k mod 2 ^ e = 0 then ''0.'' @ fraction_digits36 10 k e
      else ''0.'' @ radix_digits k e)"

text \<open>\<^verbatim>\<open>String.prototype.substr(start, length)\<close> on integer arguments.\<close>

definition substr :: "string \<Rightarrow> int \<Rightarrow> int \<Rightarrow> string" where
  "substr s start len =
     (let size = int (length s);
          intStart = (if start < 0 then max (size + start) 0 else min start size);
          intLength = min (max len 0) size;
          intEnd = min (intStart + intLength) size
      in take (nat (intEnd - intStart)) (drop (nat intStart) s))"

text \<open>The token for the random number \<open>k / 2\<^sup>e\<close>.\<close>

definition generateId :: "(nat \<Rightarrow> nat \<Rightarrow> string) \<Rightarrow> nat \<Rightarrow> nat \<Rightarrow> string" where
  "generateId radix_digits k e = substr (toString36 radix_digits k e) 2 9"

section \<open>Paginator: proofs\<close>

lemma slice_inside:
  assumes "0 \<le> i" "i < int (length xs)" "1 \<le> p"
  shows "slice xs i (i + p) = take (nat p) (drop (nat i) xs)"
proof -
  have "nat (max (min (i + p) (int (length xs)) - i) 0) = min (nat p) (length xs - nat i)"
    using assms by (auto simp: min_def max_def)
  then show ?thesis
    using assms by (simp add: slice_def Let_def min_def)
qed

lemma paginate_loop_chunks:
  assumes "1 \<le> p"
  shows "0 \<le> i \<Longrightarrow>
    paginate_loop xs p i pages = Some (pages @ chunks (nat p) (drop (nat i) xs))"
proof (induction "length xs - nat i" arbitrary: i pages rule: less_induct)
  case less
  show ?case
  proof (cases "i < int (length xs)")
    case True
    have lt: "length xs - nat (i + p) < length xs - nat i"
      using True less.prems assms by linarith
    have dr: "drop (nat p) (drop (nat i) xs) = drop (nat (i + p)) xs"
      using less.prems assms by (simp add: nat_add_distrib add.commute)
    have ne: "drop (nat i) xs \<noteq> []" using True less.prems by simp
    have "paginate_loop xs p i pages =
            paginate_loop xs p (i + p) (pages @ [slice xs i (i + p)])"
      using True by (subst paginate_loop.simps) simp
    also have "\<dots> = Some ((pages @ [slice xs i (i + p)]) @ chunks (nat p) (drop (nat (i + p)) xs))"
      using less.hyps [OF lt] less.prems assms by simp
    also have "\<dots> = Some (pages @ chunks (nat p) (drop (nat i) xs))"
      using ne assms dr slice_inside [OF less.prems True assms]
      by (subst (2) chunks.simps) simp
    finally show ?thesis .
  next
    case False
    then have "drop (nat i) xs = []" using less.prems by simp
    then show ?thesis using False
      by (subst paginate_loop.simps) (simp add: chunks.simps)
  qed
qed

lemma paginatedRows_chunks:
  "1 \<le> p \<Longrightarrow> paginatedRows xs p = Some (chunks (nat p) xs)"
  using paginate_loop_chunks [of p 0 xs "[]"] by (simp add: paginatedRows_def)

lemma concat_chunks: "0 < n \<Longrightarrow> concat (chunks n xs) = xs"
proof (induction n xs rule: chunks.induct)
  case (1 n xs)
  then show ?case by (subst chunks.simps) auto
qed

lemma length_chunks: "0 < n \<Longrightarrow> length (chunks n xs) = (length xs + n - 1) div n"
proof (induction n xs rule: chunks.induct)
  case (1 n xs)
  show ?case
  proof (cases "xs = []")
    case True
    then show ?thesis using "1.prems" by (simp add: chunks.simps)
  next
    case False
    then have len: "0 < length xs" by simp
    have ih: "length (chunks n (drop n xs)) = (length xs - n + n - 1) div n"
      using "1.IH" "1.prems" False by simp
    show ?thesis
    proof (cases "n \<le> length xs")
      case True
      then have "(length xs + n - 1) div n = Suc ((length xs - n + n - 1) div n)"
        using "1.prems" len
        by (metis Nat.add_diff_assoc2 One_nat_def Suc_leI add.commute div_add_self1 le_add_diff_inverse2 not_gr_zero plus_1_eq_Suc)
      then show ?thesis using ih False "1.prems" by (subst chunks.simps) simp
    next
      case False2: False
      then have "length xs + n - 1 = n + (length xs - 1)" "length xs - 1 < n"
        using len by linarith+
      then have "(length xs + n - 1) div n = (n + (length xs - 1)) div n" by simp
      also have "\<dots> = 1" using \<open>length xs - 1 < n\<close> "1.prems"
        by (simp only: div_add_self1) simp
      finally have "(length xs + n - 1) div n = 1" .
      moreover have "drop n xs = []" using False2 by simp
      ultimately show ?thesis using False "1.prems"
        by (subst chunks.simps) (simp add: chunks.simps)
    qed
  qed
qed

lemma nth_chunks:
  "0 < n \<Longrightarrow> k < length (chunks n xs) \<Longrightarrow> chunks n xs ! k = take n (drop (k * n) xs)"
proof (induction n xs arbitrary: k rule: chunks.induct)
  case (1 n xs)
  have ne: "\<not> (n = 0 \<or> xs = [])" using "1.prems" by (auto simp: chunks.simps)
  have unf: "chunks n xs = take n xs # chunks n (drop n xs)"
    using ne by (subst chunks.simps) simp
  show ?case
  proof (cases k)
    case 0
    then show ?thesis using unf by simp
  next
    case (Suc j)
    then have "j < length (chunks n (drop n xs))" using "1.prems" unf by simp
    then have "chunks n (drop n xs) ! j = take n (drop (j * n) (drop n xs))"
      using "1.IH" ne "1.prems" by simp
    then show ?thesis using unf Suc by (simp add: add.commute)
  qed
qed

lemma paginate_loop_diverges:
  assumes "paginate_loop xs p i pages = Some r"
  shows "\<not> (p \<le> 0 \<and> i < int (length xs))"
proof (rule paginate_loop.raw_induct
    [where P = "\<lambda>xs p i pages r. \<not> (p \<le> 0 \<and> i < int (length xs))", OF _ assms])
  fix loop :: "'a list \<Rightarrow> int \<Rightarrow> int \<Rightarrow> 'a list list \<Rightarrow> 'a list list option"
  fix xs p i pages r
  assume ih: "\<And>xs p i pages r. loop xs p i pages = Some r \<Longrightarrow> \<not> (p \<le> 0 \<and> i < int (length xs))"
  assume eq: "(if i < int (length xs) then loop xs p (i + p) (pages @ [slice xs i (i + p)])
      else Some pages) = Some r"
  show "\<not> (p \<le> 0 \<and> i < int (length xs))"
  proof
    assume a: "p \<le> 0 \<and> i < int (length xs)"
    then have "loop xs p (i + p) (pages @ [slice xs i (i + p)]) = Some r"
      using eq by simp
    then have "\<not> (p \<le> 0 \<and> i + p < int (length xs))" by (rule ih)
    then show False using a by simp
  qed
qed

lemma ceil_div: 
  assumes "0 < p" shows "int ((n + nat p - 1) div nat p) = \<lceil>real n / real_of_int p\<rceil>"
proof -
  define P where "P = nat p"
  define q where "q = (n + P - 1) div P"
  have P: "0 < P" using assms by (simp add: P_def)
  have Pp: "real_of_int p = real P" using assms by (simp add: P_def)
  have m: "(n + P - 1) mod P < P" using P by simp
  have e: "q * P + (n + P - 1) mod P = n + P - 1" unfolding q_def by simp
  have 1: "n \<le> q * P" using m e P by linarith
  have 2: "q * P < n + P" using e P by linarith
  have r1: "real n \<le> real q * real P" using 1 by (metis of_nat_le_iff of_nat_mult)
  have r2: "real q * real P < real n + real P" using 2 by (metis of_nat_less_iff of_nat_mult of_nat_add)
  have Pr: "0 < real P" using P by simp
  have "\<lceil>real n / real P\<rceil> = int q"
  proof (rule ceiling_unique)
    have "(real q - 1) * real P < real n" using r2 by (simp add: algebra_simps)
    then show "real_of_int (int q) - 1 < real n / real P"
      using Pr by (simp add: pos_less_divide_eq)
    show "real n / real P \<le> real_of_int (int q)"
      using r1 Pr by (simp add: pos_divide_le_eq)
  qed
  then have "int q = \<lceil>real n / real_of_int p\<rceil>" by (simp only: Pp)
  then show ?thesis by (simp only: q_def P_def)
qed

text \<open>
  C2. For every row sequence of length \<open>R\<close> and every rows-per-page \<open>P \<ge> 5\<close> the
  paginator returns \<open>\<lceil>R / P\<rceil>\<close> pages (none when there are no rows); page \<open>k\<close> is
  the contiguous slice of \<open>P\<close> rows starting at row \<open>k * P\<close>, so every page but the
  last has exactly \<open>P\<close> rows and the last holds the remainder, at least one row; the
  pages concatenated in order are the original rows.
\<close>

theorem paginatedRows_partition:
  assumes "5 \<le> P"
  shows "\<exists>pages. paginatedRows tableRows P = Some pages
    \<and> int (length pages) = \<lceil>real (length tableRows) / real_of_int P\<rceil>
    \<and> (tableRows = [] \<longrightarrow> pages = [])
    \<and> (\<forall>k < length pages. pages ! k = take (nat P) (drop (k * nat P) tableRows))
    \<and> (\<forall>k. Suc k < length pages \<longrightarrow> length (pages ! k) = nat P)
    \<and> (pages \<noteq> [] \<longrightarrow> 1 \<le> length (last pages) \<and> length (last pages) \<le> nat P
          \<and> length (last pages) = length tableRows - (length pages - 1) * nat P)
    \<and> concat pages = tableRows"
proof -
  define n where "n = nat P"
  define pages where "pages = chunks n tableRows"
  have n: "0 < n" using assms by (simp add: n_def)
  have res: "paginatedRows tableRows P = Some pages"
    using assms paginatedRows_chunks [of P tableRows] by (simp add: pages_def n_def)
  have len: "length pages = (length tableRows + n - 1) div n"
    using n by (simp add: pages_def length_chunks)
  have ceil: "int (length pages) = \<lceil>real (length tableRows) / real_of_int P\<rceil>"
    using assms ceil_div [of P "length tableRows"] len by (simp add: n_def)
  have nth: "pages ! k = take n (drop (k * n) tableRows)" if "k < length pages" for k
    using that n by (simp add: pages_def nth_chunks)
  have lo: "(length pages - 1) * n < length tableRows" if "pages \<noteq> []"
  proof -
    have pos: "0 < length pages" using that by simp
    have "(length tableRows + n - 1) div n * n \<le> length tableRows + n - 1" by simp
    then have "length pages * n \<le> length tableRows + n - 1" using len by simp
    moreover have "length pages * n = (length pages - 1) * n + n"
      using that by (cases pages) simp_all
    ultimately show ?thesis using n by linarith
  qed
  have hi: "length tableRows \<le> length pages * n"
  proof -
    have "(length tableRows + n - 1) mod n < n" using n by simp
    moreover have "length pages * n + (length tableRows + n - 1) mod n
        = length tableRows + n - 1" by (simp only: len div_mult_mod_eq)
    ultimately show ?thesis using n by linarith
  qed
  have empty: "tableRows = [] \<longrightarrow> pages = []"
    by (simp add: pages_def chunks.simps)
  have full: "length (pages ! k) = n" if "Suc k < length pages" for k
  proof -
    have "Suc k \<le> length pages - 1" using that by simp
    then have "Suc k * n \<le> (length pages - 1) * n" by (rule mult_le_mono1)
    then have "Suc k * n < length tableRows" using lo that by fastforce
    then have "k * n + n \<le> length tableRows" by simp
    then show ?thesis using nth [of k] that by simp
  qed
  have lastp: "1 \<le> length (last pages) \<and> length (last pages) \<le> n
      \<and> length (last pages) = length tableRows - (length pages - 1) * n" if "pages \<noteq> []"
  proof -
    have "last pages = pages ! (length pages - 1)" using that by (simp add: last_conv_nth)
    then have l: "last pages = take n (drop ((length pages - 1) * n) tableRows)"
      using nth [of "length pages - 1"] that by simp
    have "length pages * n = (length pages - 1) * n + n"
      using that by (cases pages) simp_all
    then have "length tableRows - (length pages - 1) * n \<le> n" using hi by linarith
    then show ?thesis using l lo [OF that] by simp
  qed
  have cc: "concat pages = tableRows" using n by (simp add: pages_def concat_chunks)
  show ?thesis
    using res ceil empty nth full lastp cc unfolding n_def by blast
qed

theorem paginatedRows_partition_witness:
  "(5::int) \<le> 5 \<and> (\<exists>pages. paginatedRows [1, 2, 3, 4, 5, 6, 7 :: nat] 5 = Some pages
     \<and> int (length pages) = \<lceil>real (length [1, 2, 3, 4, 5, 6, 7 :: nat]) / real_of_int 5\<rceil>
     \<and> concat pages = [1, 2, 3, 4, 5, 6, 7])"
  using paginatedRows_partition [of 5 "[1, 2, 3, 4, 5, 6, 7 :: nat]"] by auto

text \<open>
  C10. The pagination loop returns for every row list as soon as rows-per-page is
  at least 1, also below 5 and above 100: the loop applies no clamp and cuts pages
  of exactly the size it is given. With rows present and a rows-per-page of zero or
  less it never returns.
\<close>

theorem paginatedRows_terminates:
  "(1 \<le> P \<longrightarrow> (\<exists>pages. paginatedRows tableRows P = Some pages
        \<and> (\<forall>k < length pages. pages ! k = take (nat P) (drop (k * nat P) tableRows))))
   \<and> (P \<le> 0 \<and> tableRows \<noteq> [] \<longrightarrow> paginatedRows tableRows P = None)"
proof (intro conjI impI)
  assume p: "1 \<le> P"
  then have "paginatedRows tableRows P = Some (chunks (nat P) tableRows)"
    by (rule paginatedRows_chunks)
  moreover have "\<forall>k < length (chunks (nat P) tableRows).
      chunks (nat P) tableRows ! k = take (nat P) (drop (k * nat P) tableRows)"
    using p by (simp add: nth_chunks)
  ultimately show "\<exists>pages. paginatedRows tableRows P = Some pages
        \<and> (\<forall>k < length pages. pages ! k = take (nat P) (drop (k * nat P) tableRows))"
    by blast
next
  assume a: "P \<le> 0 \<and> tableRows \<noteq> []"
  show "paginatedRows tableRows P = None"
  proof (cases "paginatedRows tableRows P")
    case None
    then show ?thesis .
  next
    case (Some r)
    then have "paginate_loop tableRows P 0 [] = Some r" by (simp add: paginatedRows_def)
    then have "\<not> (P \<le> 0 \<and> 0 < int (length tableRows))" by (rule paginate_loop_diverges)
    then show ?thesis using a by simp
  qed
qed

theorem paginatedRows_terminates_witness:
  "(1::int) \<le> 1 \<and> paginatedRows [1, 2, 3 :: nat] 1 = Some [[1], [2], [3]]
   \<and> (0::int) \<le> 0 \<and> [1, 2, 3 :: nat] \<noteq> [] \<and> paginatedRows [1, 2, 3 :: nat] 0 = None"
proof -
  obtain pages where p: "paginatedRows [1, 2, 3 :: nat] 1 = Some pages"
    and n: "\<forall>k < length pages. pages ! k = take (nat 1) (drop (k * nat 1) [1, 2, 3 :: nat])"
    using paginatedRows_terminates [of 1 "[1, 2, 3 :: nat]"] by auto
  have "paginatedRows [1, 2, 3 :: nat] 1 = Some (chunks (nat 1) [1, 2, 3])"
    by (rule paginatedRows_chunks) simp
  then have "pages = [[1], [2], [3]]" using p by (simp add: chunks.simps)
  moreover have "paginatedRows [1, 2, 3 :: nat] 0 = None"
    using paginatedRows_terminates [of 0 "[1, 2, 3 :: nat]"] by simp
  ultimately show ?thesis using p by simp
qed

section \<open>Renderer: proofs\<close>

lemma olCount_after_simps:
  "olCount_after c [] = c"
  "olCount_after c (l # ls) = olCount_after (snd (render_line c l)) ls"
  by (simp_all add: olCount_after_def)

lemma olCount_after_append:
  "olCount_after c (xs @ ys) = olCount_after (olCount_after c xs) ys"
  by (simp add: olCount_after_def)

lemma render_lines_append:
  "render_lines c (xs @ ys) = render_lines c xs @ render_lines (olCount_after c xs) ys"
  by (induction xs arbitrary: c) (simp_all add: olCount_after_simps)

lemma length_render_lines: "length (render_lines c xs) = length xs"
  by (induction xs arbitrary: c) simp_all

lemma isOrderedList_not_heading:
  "isOrderedList t \<Longrightarrow> \<not> is_heading_level n t \<and> t \<noteq> []"
  by (auto simp: isOrderedList_def is_heading_level_def split: list.splits)

lemma render_line_ordered:
  "isOrderedList (trim l) \<Longrightarrow> render_line c l = (OrderedItem (Suc c) (drop 2 (trim l)), Suc c)"
  using isOrderedList_not_heading [of "trim l"] by (simp add: render_line_def Let_def)

lemma render_line_blank: "trim l = [] \<Longrightarrow> render_line c l = (Spacer, c)"
  by (simp add: render_line_def Let_def)

lemma render_line_reset:
  "trim l \<noteq> [] \<Longrightarrow> \<not> isOrderedList (trim l) \<Longrightarrow> snd (render_line c l) = 0"
  by (simp add: render_line_def Let_def)

lemma render_line_reset_block:
  "trim l \<noteq> [] \<Longrightarrow> \<not> isOrderedList (trim l) \<Longrightarrow> fst (render_line c l) \<noteq> OrderedItem n s"
  by (simp add: render_line_def Let_def)

text \<open>
  What \<^verbatim>\<open>trim\<close> and the test \<^verbatim>\<open>/^#\s/\<close> do to a line, in terms of its characters.
  Removing the white space at the end of a text keeps its first character unless the
  text is all white space.
\<close>

lemma rstrip_Cons:
  "rev (dropWhile P (rev (b # rest))) =
     (if list_all P (b # rest) then [] else b # rev (dropWhile P (rev rest)))"
proof (cases "list_all P rest")
  case True
  then have "dropWhile P (rev rest @ [b]) = dropWhile P [b]"
    by (intro dropWhile_append2) (simp add: list_all_iff)
  moreover have "dropWhile P (rev rest) = []" using True by (simp add: list_all_iff)
  ultimately show ?thesis using True by simp
next
  case False
  then obtain x where "x \<in> set (rev rest)" "\<not> P x" by (auto simp: list_all_iff)
  then have "dropWhile P (rev rest @ [b]) = dropWhile P (rev rest) @ [b]"
    by (rule dropWhile_append1)
  then show ?thesis using False by simp
qed

lemma rstrip_text:
  assumes "list_all P trail" "text \<noteq> []" "\<not> P (last text)"
  shows "rev (dropWhile P (rev (text @ trail))) = text"
proof -
  have "dropWhile P (rev trail @ rev text) = dropWhile P (rev text)"
    using assms(1) by (intro dropWhile_append2) (simp add: list_all_iff)
  moreover have "dropWhile P (rev text) = rev text"
    using assms(2,3) by (simp add: dropWhile_eq_self_iff hd_rev)
  ultimately show ?thesis by (simp only: rev_append rev_rev_ident)
qed

lemma numbered_line_iff:
  "numbered_line l \<longleftrightarrow>
     (\<exists>indent w rest. l = indent @ CHR ''#'' # w # rest
        \<and> list_all is_ws indent \<and> is_ws w \<and> \<not> list_all is_ws rest)"
proof
  assume "numbered_line l"
  then obtain w rest where d: "dropWhile is_ws l = CHR ''#'' # w # rest"
    and w: "is_ws w" "\<not> list_all is_ws rest"
    by (auto simp: numbered_line_def split: list.splits)
  have "l = takeWhile is_ws l @ CHR ''#'' # w # rest"
    using takeWhile_dropWhile_id [of is_ws l] by (simp only: d)
  moreover have "list_all is_ws (takeWhile is_ws l)"
    by (auto simp: list_all_iff dest: set_takeWhileD)
  ultimately show "\<exists>indent w rest. l = indent @ CHR ''#'' # w # rest
      \<and> list_all is_ws indent \<and> is_ws w \<and> \<not> list_all is_ws rest"
    using w by blast
next
  assume "\<exists>indent w rest. l = indent @ CHR ''#'' # w # rest
      \<and> list_all is_ws indent \<and> is_ws w \<and> \<not> list_all is_ws rest"
  then obtain indent w rest where l: "l = indent @ CHR ''#'' # w # rest"
    and i: "list_all is_ws indent" and w: "is_ws w" "\<not> list_all is_ws rest"
    by blast
  have "dropWhile is_ws l = dropWhile is_ws (CHR ''#'' # w # rest)"
    unfolding l using i by (intro dropWhile_append2) (simp add: list_all_iff)
  then have "dropWhile is_ws l = CHR ''#'' # w # rest" by (simp add: is_ws_def)
  then show "numbered_line l" using w by (simp add: numbered_line_def)
qed

lemma trim_blank: "trim l = [] \<longleftrightarrow> blank_line l"
proof
  assume "trim l = []"
  then have a: "\<forall>c \<in> set (dropWhile is_ws l). is_ws c"
    by (simp add: trim_def)
  have "dropWhile is_ws l = []"
  proof (cases "dropWhile is_ws l")
    case Nil
    then show ?thesis .
  next
    case (Cons c cs)
    then have "\<not> is_ws c" using hd_dropWhile [of is_ws l] by simp
    then show ?thesis using a Cons by simp
  qed
  then show "blank_line l" by (simp add: blank_line_def list_all_iff)
next
  assume "blank_line l"
  then have "\<forall>c \<in> set l. is_ws c" by (simp add: blank_line_def list_all_iff)
  then show "trim l = []" by (auto simp: trim_def dest: set_dropWhileD)
qed

lemma trim_numbered: "isOrderedList (trim l) \<longleftrightarrow> numbered_line l"
proof (cases "dropWhile is_ws l")
  case Nil
  show ?thesis unfolding trim_def numbered_line_def Nil by (simp add: isOrderedList_def)
next
  case (Cons a ds)
  then have a: "\<not> is_ws a" using hd_dropWhile [of is_ws l] by simp
  have t: "trim l = a # rev (dropWhile is_ws (rev ds))"
    using a by (simp add: trim_def Cons rstrip_Cons del: rev.simps)
  show ?thesis
  proof (cases ds)
    case Nil
    then show ?thesis by (simp add: t isOrderedList_def numbered_line_def Cons)
  next
    case (Cons b rest)
    show ?thesis
      unfolding t numbered_line_def \<open>dropWhile is_ws l = a # ds\<close> Cons rstrip_Cons
      by (auto simp: isOrderedList_def)
  qed
qed

lemma trim_item:
  assumes "list_all is_ws indent" "is_ws w" "list_all is_ws trail" "text \<noteq> []"
    "\<not> is_ws (last text)"
  shows "trim (indent @ CHR ''#'' # w # text @ trail) = CHR ''#'' # w # text"
proof -
  have h: "\<not> is_ws (CHR ''#'')" by (simp add: is_ws_def)
  have "dropWhile is_ws (indent @ CHR ''#'' # w # text @ trail)
      = dropWhile is_ws (CHR ''#'' # w # text @ trail)"
    using assms(1) by (intro dropWhile_append2) (simp add: list_all_iff)
  then have d: "dropWhile is_ws (indent @ CHR ''#'' # w # text @ trail)
      = CHR ''#'' # w # text @ trail"
    using h by simp
  have n: "\<not> list_all is_ws (text @ trail)"
    using assms(4,5) last_in_set [of "text"] by (auto simp: list_all_iff)
  show ?thesis
    unfolding trim_def d rstrip_Cons
    using h n rstrip_text [OF assms(3,4,5)] by simp
qed

lemma olCount_after_run:
  "\<forall>x \<in> set run. numbered_line x \<or> blank_line x \<Longrightarrow>
   olCount_after c run = c + length (filter numbered_line run)"
proof (induction run arbitrary: c)
  case Nil
  then show ?case by (simp add: olCount_after_simps)
next
  case (Cons l run)
  show ?case
  proof (cases "numbered_line l")
    case True
    then show ?thesis
      using Cons by (simp add: olCount_after_simps render_line_ordered trim_numbered)
  next
    case False
    then have "trim l = []" using Cons.prems by (simp add: trim_blank)
    then show ?thesis using Cons False by (simp add: olCount_after_simps render_line_blank)
  qed
qed

lemma olCount_after_reset:
  assumes "pre \<noteq> []" "\<not> blank_line (last pre)" "\<not> numbered_line (last pre)"
  shows "olCount_after c pre = 0"
proof -
  have "pre = butlast pre @ [last pre]" using assms(1) by simp
  then have "olCount_after c pre = olCount_after (olCount_after c (butlast pre)) [last pre]"
    by (metis olCount_after_append)
  then show ?thesis
    using assms by (simp add: olCount_after_simps render_line_reset trim_blank trim_numbered)
qed

text \<open>The block of the line at position \<open>i\<close> depends on the lines before it only.\<close>

lemma render_lines_nth:
  assumes "i < length ls"
  shows "render_lines c (ls @ rest) ! i = fst (render_line (olCount_after c (take i ls)) (ls ! i))"
proof -
  have "ls @ rest = take i ls @ (ls ! i # drop (Suc i) ls @ rest)"
    using assms by (simp add: id_take_nth_drop [symmetric])
  then have "render_lines c (ls @ rest) =
      render_lines c (take i ls)
        @ render_lines (olCount_after c (take i ls)) (ls ! i # drop (Suc i) ls @ rest)"
    by (simp only: render_lines_append)
  then show ?thesis using assms by (simp add: nth_append length_render_lines)
qed

text \<open>
  A line \<^verbatim>\<open>#\<close>, TAB, text is a numbered-list item like any other, although its trimmed
  form does not start with \<^verbatim>\<open>#\<close> and a space: between two items it takes the number 2
  and the item after it the number 3.
\<close>

theorem FormattedCell_tab_item:
  "trim (''#'' @ [CHR 0x09] @ ''b'') \<noteq> []
   \<and> \<not> startsWith (trim (''#'' @ [CHR 0x09] @ ''b'')) ''# ''
   \<and> FormattedCell (''# a'' @ [LF] @ ''#'' @ [CHR 0x09] @ ''b'' @ [LF] @ ''# c'')
      = Some [OrderedItem 1 ''a'', OrderedItem 2 ''b'', OrderedItem 3 ''c'']"
  by (simp add: FormattedCell_def render_line_def trim_def is_ws_def isOrderedList_def
      is_heading_level_def startsWith_def Let_def)

text \<open>
  C8, as the code has it. A numbered-list line is a line that reads, after leading white
  space, \<^verbatim>\<open>#\<close>, one white-space character of any kind (a space, a TAB, a no-break
  space, ...) and a text that is not all white space. Take such a line of a cell, written
  out as indentation, \<^verbatim>\<open>#\<close>, white-space character, item text and trailing white space,
  and the lines \<open>run\<close> before it back to the last line that is neither blank nor a
  numbered-list line, or back to the start of the cell. The line is rendered as an item
  with its text and with the number of numbered-list lines in \<open>run\<close> plus one; every
  numbered-list line of \<open>run\<close> is an item that carries the number of numbered-list
  lines before it in \<open>run\<close> plus one; the blank lines of \<open>run\<close> (empty or white
  space only) are rendered as spacers and neither count nor reset the counter. So the
  numbering starts again at 1 after a line of another kind, which is itself not rendered
  as an item, and goes up by one per item.
\<close>

theorem FormattedCell_numbering:
  assumes split: "split_lines str = pre @ run @ line # post"
    and start: "pre = [] \<or> (\<not> blank_line (last pre) \<and> \<not> numbered_line (last pre))"
    and run: "\<forall>x \<in> set run. numbered_line x \<or> blank_line x"
    and line: "line = indent @ CHR ''#'' # w # text @ trail"
    and ws: "list_all is_ws indent" "is_ws w" "list_all is_ws trail"
    and item_text: "text \<noteq> []" "\<not> is_ws (last text)"
  shows "\<exists>blocks. FormattedCell str = Some blocks
    \<and> length blocks = length (split_lines str)
    \<and> blocks ! (length pre + length run) =
        OrderedItem (Suc (length (filter numbered_line run))) text
    \<and> (\<forall>i < length run. numbered_line (run ! i) \<longrightarrow>
          (\<exists>s. blocks ! (length pre + i) =
             OrderedItem (Suc (length (filter numbered_line (take i run)))) s))
    \<and> (\<forall>i < length run. blank_line (run ! i) \<longrightarrow> blocks ! (length pre + i) = Spacer)
    \<and> (pre \<noteq> [] \<longrightarrow> (\<forall>n s. blocks ! (length pre - 1) \<noteq> OrderedItem n s))"
proof -
  define blocks where "blocks = render_lines 0 (split_lines str)"
  have tl: "trim line = CHR ''#'' # w # text"
    unfolding line using ws item_text by (rule trim_item)
  have item: "isOrderedList (trim line)" using ws(2) by (simp add: tl isOrderedList_def)
  have ne: "str \<noteq> []"
  proof
    assume "str = []"
    then have "pre @ run @ line # post = [[]]" using split by simp
    then have "line = []" by (simp add: append_eq_Cons_conv Cons_eq_append_conv)
    then show False using line by simp
  qed
  have c0: "olCount_after 0 pre = 0"
  proof (cases "pre = []")
    case True
    then show ?thesis by (simp add: olCount_after_simps)
  next
    case False
    then show ?thesis using start by (simp add: olCount_after_reset)
  qed
  have dec: "blocks = render_lines 0 pre @ render_lines 0 (run @ line # post)"
    using c0 by (simp add: blocks_def split render_lines_append)
  have tail: "render_lines 0 (run @ line # post) =
      render_lines 0 run @ render_lines (olCount_after 0 run) (line # post)"
    by (rule render_lines_append)
  have cnt: "olCount_after 0 run = length (filter numbered_line run)"
    using olCount_after_run [OF run, of 0] by simp
  have "blocks ! (length pre + length run) = render_lines (olCount_after 0 run) (line # post) ! 0"
    by (simp add: dec tail nth_append length_render_lines)
  then have numbered: "blocks ! (length pre + length run) =
      OrderedItem (Suc (length (filter numbered_line run))) text"
    using item cnt by (simp add: render_line_ordered tl)
  have inrun: "blocks ! (length pre + i) = fst (render_line (olCount_after 0 (take i run)) (run ! i))"
    if "i < length run" for i
    using render_lines_nth [OF that, of 0 "line # post"]
    by (simp add: dec nth_append length_render_lines)
  have items: "\<exists>s. blocks ! (length pre + i) =
      OrderedItem (Suc (length (filter numbered_line (take i run)))) s"
    if "i < length run" "numbered_line (run ! i)" for i
  proof -
    have "\<forall>x \<in> set (take i run). numbered_line x \<or> blank_line x"
      using run by (meson in_set_takeD)
    then have "olCount_after 0 (take i run) = length (filter numbered_line (take i run))"
      using olCount_after_run [of "take i run" 0] by simp
    then show ?thesis
      using inrun [OF that(1)] that(2) by (simp add: render_line_ordered trim_numbered)
  qed
  have spacer: "blocks ! (length pre + i) = Spacer"
    if "i < length run" "blank_line (run ! i)" for i
    using inrun [OF that(1)] that(2) by (simp add: render_line_blank trim_blank)
  have before: "blocks ! (length pre - 1) \<noteq> OrderedItem n s" if "pre \<noteq> []" for n s
  proof -
    have l: "trim (last pre) \<noteq> []" "\<not> isOrderedList (trim (last pre))"
      using start that by (simp_all add: trim_blank trim_numbered)
    have p: "pre = butlast pre @ [last pre]" using that by simp
    have "render_lines 0 pre =
        render_lines 0 (butlast pre) @ render_lines (olCount_after 0 (butlast pre)) [last pre]"
      by (subst p) (rule render_lines_append)
    then have "render_lines 0 pre ! (length pre - 1) =
        fst (render_line (olCount_after 0 (butlast pre)) (last pre))"
      by (simp add: nth_append length_render_lines)
    moreover have "blocks ! (length pre - 1) = render_lines 0 pre ! (length pre - 1)"
      using that by (simp add: dec nth_append length_render_lines)
    ultimately show ?thesis using render_line_reset_block [OF l] by simp
  qed
  have "FormattedCell str = Some blocks" using ne by (simp add: FormattedCell_def blocks_def)
  moreover have "length blocks = length (split_lines str)"
    by (simp add: blocks_def length_render_lines)
  ultimately show ?thesis using numbered items spacer before by blast
qed

text \<open>
  The cell \<^verbatim>\<open>#x\<close>, an indented item \<^verbatim>\<open>a\<close> with a space at its end, a line of a
  space and a TAB, and an indented item \<^verbatim>\<open>b\<close> written with a TAB after the \<^verbatim>\<open>#\<close>:
  the first line is no item, the items take the numbers 1 and 2, and the line between
  them is a spacer.
\<close>

theorem FormattedCell_numbering_witness:
  "\<exists>blocks.
     FormattedCell (''#x'' @ [LF] @ ''  # a '' @ [LF] @ [CHR 0x20, CHR 0x09] @ [LF]
       @ '' #'' @ [CHR 0x09] @ ''b  '') = Some blocks
     \<and> length blocks = 4
     \<and> (\<forall>n s. blocks ! 0 \<noteq> OrderedItem n s)
     \<and> (\<exists>s. blocks ! 1 = OrderedItem 1 s)
     \<and> blocks ! 2 = Spacer
     \<and> blocks ! 3 = OrderedItem 2 ''b''"
proof -
  let ?str = "''#x'' @ [LF] @ ''  # a '' @ [LF] @ [CHR 0x20, CHR 0x09] @ [LF]
    @ '' #'' @ [CHR 0x09] @ ''b  ''"
  let ?run = "[''  # a '', [CHR 0x20, CHR 0x09]]"
  have s: "split_lines ?str = [''#x''] @ ?run @ ('' #'' @ [CHR 0x09] @ ''b  '') # []"
    by simp
  have a: "[''#x''] = [] \<or> (\<not> blank_line (last [''#x'']) \<and> \<not> numbered_line (last [''#x'']))"
    by (simp add: blank_line_def numbered_line_def is_ws_def)
  have b: "\<forall>x \<in> set ?run. numbered_line x \<or> blank_line x"
    by (simp add: blank_line_def numbered_line_def is_ws_def)
  have c: "'' #'' @ [CHR 0x09] @ ''b  '' = '' '' @ CHR ''#'' # CHR 0x09 # ''b'' @ ''  ''"
    by simp
  have d: "list_all is_ws '' ''" "is_ws (CHR 0x09)" "list_all is_ws ''  ''"
    "''b'' \<noteq> []" "\<not> is_ws (last ''b'')"
    by (simp_all add: is_ws_def)
  have n: "length (filter numbered_line ?run) = 1" "length (filter numbered_line (take 0 ?run)) = 0"
    "numbered_line (?run ! 0)" "blank_line (?run ! 1)"
    by (simp_all add: blank_line_def numbered_line_def is_ws_def)
  obtain blocks
    where f: "FormattedCell ?str = Some blocks"
    and len: "length blocks = length (split_lines ?str)"
    and last: "blocks ! (length [''#x''] + length ?run) =
      OrderedItem (Suc (length (filter numbered_line ?run))) ''b''"
    and items: "\<forall>i < length ?run. numbered_line (?run ! i) \<longrightarrow>
      (\<exists>s. blocks ! (length [''#x''] + i) =
         OrderedItem (Suc (length (filter numbered_line (take i ?run)))) s)"
    and sp: "\<forall>i < length ?run. blank_line (?run ! i) \<longrightarrow> blocks ! (length [''#x''] + i) = Spacer"
    and before: "[''#x''] \<noteq> [] \<longrightarrow> (\<forall>n s. blocks ! (length [''#x''] - 1) \<noteq> OrderedItem n s)"
    using FormattedCell_numbering [OF s a b c d] by blast
  have "length blocks = 4" using len by (simp only: s) simp
  moreover have "\<forall>n s. blocks ! 0 \<noteq> OrderedItem n s" using before by simp
  moreover have "\<exists>s. blocks ! 1 = OrderedItem 1 s"
    using items [rule_format, of 0] n by simp
  moreover have "blocks ! 2 = Spacer"
    using sp [rule_format, of 1] n by (simp add: eval_nat_numeral)
  moreover have "blocks ! 3 = OrderedItem 2 ''b''"
    using last n by (simp add: eval_nat_numeral)
  ultimately show ?thesis using f by blast
qed

section \<open>Formatting: proofs\<close>

lemma format_columns_frame:
  "\<forall>c \<in> set cols. key c = k \<longrightarrow> cellId row c \<notin> sel \<Longrightarrow>
   fst (format_columns ft v sel row cols (newRow, m)) k = newRow k"
  by (induction cols arbitrary: newRow m) (auto simp: set_prop_def)

lemma format_row_frame:
  assumes "\<forall>c \<in> set cols. key c = k \<longrightarrow> cellId row c \<notin> sel"
  shows "format_row ft v cols sel row k = row k"
proof (cases "format_columns ft v sel row cols (row, False)")
  case (Pair newRow modified)
  then have "newRow k = row k"
    using format_columns_frame [OF assms, of ft v row False] by simp
  then show ?thesis using Pair by (simp add: format_row_def)
qed

lemma applyFormat_frame:
  "length (applyFormat ft v cols sel tableRows) = length tableRows
   \<and> (\<forall>i < length tableRows. \<forall>k.
        (\<forall>c \<in> set cols. key c = k \<longrightarrow> cellId (tableRows ! i) c \<notin> sel) \<longrightarrow>
        (applyFormat ft v cols sel tableRows ! i) k = (tableRows ! i) k)"
  by (simp add: applyFormat_def format_row_frame)

lemma applyFormat_row_id:
  assumes "\<forall>c \<in> set cols. key c \<noteq> ''id''"
  shows "map row_id (applyFormat ft v cols sel tableRows) = map row_id tableRows"
proof -
  have "row_id (format_row ft v cols sel row) = row_id row" for row
    using assms format_row_frame [of cols "''id''" row sel ft v]
    by (simp add: row_id_def get_prop_def)
  then show ?thesis by (simp add: applyFormat_def)
qed

lemma split_lines_single: "LF \<notin> set s \<Longrightarrow> split_lines s = [s]"
  by (induction s rule: split_lines.induct) auto

lemma trim_star: "trim (CHR ''*'' # s @ ''*'') = CHR ''*'' # s @ ''*''"
  by (simp add: trim_def is_ws_def)

lemma formatLine_bold_twice:
  assumes plain: "\<not> is_heading (trim l)" "\<not> is_bullet (trim l)" "\<not> isOrderedList (trim l)"
    and unmarked: "\<not> (startsWith (trim l) ''*'' \<and> endsWith (trim l) ''*'')"
    and lead: "l = [] \<or> \<not> is_ws (hd l)"
  shows "formatLine Bold v (formatLine Bold v l) = l"
proof -
  have first: "formatLine Bold v l = CHR ''*'' # l @ ''*''"
    using plain unmarked by (auto simp: formatLine_def Let_def)
  have nb: "\<not> is_bullet (CHR ''*'' # l @ ''*'')"
    using lead by (cases l) (auto simp: is_bullet_def is_ws_def)
  have nh: "\<not> is_heading (CHR ''*'' # l @ ''*'')"
    by (auto simp: is_heading_def split: list.splits)
  have no: "\<not> isOrderedList (CHR ''*'' # l @ ''*'')"
    by (auto simp: isOrderedList_def split: list.splits)
  have st: "startsWith (CHR ''*'' # l @ ''*'') ''*''" "endsWith (CHR ''*'' # l @ ''*'') ''*''"
    by (simp_all add: startsWith_def endsWith_def)
  have strip: "strip_star (CHR ''*'' # l @ ''*'') = l"
    by (simp add: strip_star_def startsWith_def endsWith_def butlast_append)
  show ?thesis
    unfolding first using nb nh no st strip
    by (simp add: formatLine_def Let_def trim_star del: append.simps)
qed

text \<open>
  C9, at a table with a column whose key is \<^verbatim>\<open>id\<close>, the table that \<^verbatim>\<open>parseCSV\<close>
  builds from \<^verbatim>\<open>id,name\n5,x\<close>. The row object keeps its id under the same name as
  the cell of that column, so making the cell \<^verbatim>\<open>5-id\<close> bold rewrites the id of the
  row from \<^verbatim>\<open>5\<close> to \<^verbatim>\<open>*5*\<close>.
\<close>

theorem applyFormat_column_id:
  "map row_id (applyFormat Bold None
      [\<lparr>key = ''id'', label = ''Id'', type = Number\<rparr>, \<lparr>key = ''name'', label = ''Name'', type = Text\<rparr>]
      {''5-id''} [[''id'' \<mapsto> ''5'', ''name'' \<mapsto> ''x'']]) = [''*5*'']"
  by (simp add: applyFormat_def format_row_def cellId_def row_id_def cell_text_def formatCell_def
      get_prop_def set_prop_def toString_def
      formatLine_def trim_def is_ws_def is_heading_def is_bullet_def isOrderedList_def
      startsWith_def endsWith_def)

text \<open>
  C6, at a plain one-line cell that starts with a space. The first \<^verbatim>\<open>bold\<close> wraps
  the text \<^verbatim>\<open> abc\<close> into \<^verbatim>\<open>* abc*\<close>, whose first two characters are the bullet
  prefix; the second \<^verbatim>\<open>bold\<close> holds that prefix aside and wraps the rest, so the cell
  ends as \<^verbatim>\<open>* *abc**\<close> and not as it began.
\<close>

theorem applyFormat_bold_twice_leading_space:
  "map (\<lambda>row. cell_text row ''name'')
     (applyFormat Bold None [\<lparr>key = ''name'', label = ''Name'', type = Text\<rparr>] {''r1-name''}
       (applyFormat Bold None [\<lparr>key = ''name'', label = ''Name'', type = Text\<rparr>] {''r1-name''}
          [[''id'' \<mapsto> ''r1'', ''name'' \<mapsto> '' abc'']])) = [''* *abc**'']"
  by (simp add: applyFormat_def format_row_def cellId_def row_id_def cell_text_def formatCell_def
      get_prop_def set_prop_def toString_def
      formatLine_def trim_def is_ws_def is_heading_def is_bullet_def isOrderedList_def
      startsWith_def endsWith_def strip_star_def)

section \<open>Column type inference: proofs\<close>

lemma StringToNumber_currency: "StringToNumber (strip_currency ''$1,200.50'') = Finite"
  by (simp add: StringToNumber_def strip_currency_def trim_def is_ws_def startsWith_def
      unsigned_decimal_def is_digit_def exponent_part_def decimal_class_def radix_value_def
      digit_value_def overflow_threshold_def Let_def)

lemma StringToNumber_Infinity: "StringToNumber (strip_currency ''Infinity'') = Infinite"
  by (simp add: StringToNumber_def strip_currency_def trim_def is_ws_def startsWith_def
      unsigned_decimal_def)

lemma StringToNumber_na: "StringToNumber (strip_currency ''n/a'') = NaN"
  by (simp add: StringToNumber_def strip_currency_def trim_def is_ws_def startsWith_def
      unsigned_decimal_def is_digit_def Let_def)

lemma StringToNumber_abc: "StringToNumber (strip_currency ''abc'') = NaN"
  by (simp add: StringToNumber_def strip_currency_def trim_def is_ws_def startsWith_def
      unsigned_decimal_def is_digit_def Let_def)

lemma remdups_replicate_pos: "0 < n \<Longrightarrow> remdups (replicate n v) = [v]"
proof (induction n)
  case 0
  then show ?case by simp
next
  case (Suc n)
  then show ?case by (cases n) auto
qed

text \<open>On strings the visit ends without an error.\<close>

lemma isNumber_strings:
  "isNumber (map Str ss) = Inr (list_all (\<lambda>s. \<not> isNaN (StringToNumber (strip_currency s))) ss)"
  by (induction ss) simp_all

lemma isNumber_no_Obj:
  "\<forall>v \<in> set vs. \<exists>s. v = Str s \<Longrightarrow> \<exists>b. isNumber vs = Inr b"
proof (induction vs)
  case Nil
  have "isNumber [] = Inr True" by simp
  then show ?case by (rule exI)
next
  case (Cons v vs)
  then obtain s where v: "v = Str s" by auto
  obtain b where "isNumber vs = Inr b" using Cons by auto
  then show ?case unfolding v by (cases "isNaN (StringToNumber (strip_currency s))") auto
qed

lemma validValues_strings:
  "Obj \<notin> set values \<Longrightarrow> \<forall>v \<in> set (validValues values). \<exists>s. v = Str s"
proof
  fix v
  assume a: "Obj \<notin> set values" and v: "v \<in> set (validValues values)"
  then have "v \<noteq> Obj" "v \<noteq> Null" "v \<noteq> Undefined" by (auto simp: validValues_def)
  then show "\<exists>s. v = Str s" by (cases v) simp_all
qed

lemma detectType_no_Obj:
  assumes "Obj \<notin> set values"
  shows "\<exists>t. detectType Date_parse values = Inr t"
proof -
  obtain b where "isNumber (validValues values) = Inr b"
    using isNumber_no_Obj [OF validValues_strings [OF assms]] by blast
  then show ?thesis by (cases b) (simp_all add: detectType_def Let_def)
qed

text \<open>
  The numeric rule fires on a value that is not finite: the one value \<^verbatim>\<open>Infinity\<close>
  converts to an infinity, and the column is a number column whatever \<^verbatim>\<open>Date.parse\<close>
  does. A column without a non-empty value never reaches the rule: it is a text column.
\<close>

theorem detectType_Infinity_is_number:
  "StringToNumber (strip_currency ''Infinity'') = Infinite
   \<and> (\<forall>Date_parse. detectType Date_parse [Str ''Infinity''] = Inr Number)
   \<and> (\<forall>Date_parse. detectType Date_parse [Str [], Undefined] = Inr Text)"
  using StringToNumber_Infinity
  by (simp add: detectType_def validValues_def isNaN_def toString_def)

text \<open>
  C4, as the code has it. Take a column whose non-empty values are the strings \<open>ss\<close>,
  at least one. If every one of them, with all \<^verbatim>\<open>$\<close> and \<^verbatim>\<open>,\<close> removed, converts to a
  number other than \<^verbatim>\<open>NaN\<close> (finite or infinite), the type is \<open>Currency\<close> when some
  value contains \<^verbatim>\<open>$\<close> and \<open>Number\<close> otherwise. If some value converts to \<^verbatim>\<open>NaN\<close>,
  the rule does not fire: the type is neither \<open>Currency\<close> nor \<open>Number\<close>.
\<close>

theorem detectType_numeric:
  assumes "validValues values = map Str ss" and "ss \<noteq> []"
  shows "((\<forall>s \<in> set ss. StringToNumber (strip_currency s) \<noteq> NaN) \<longrightarrow>
           detectType Date_parse values =
             Inr (if \<exists>s \<in> set ss. CHR ''$'' \<in> set s then Currency else Number))
       \<and> ((\<exists>s \<in> set ss. StringToNumber (strip_currency s) = NaN) \<longrightarrow>
           detectType Date_parse values \<noteq> Inr Currency
           \<and> detectType Date_parse values \<noteq> Inr Number)"
proof -
  have d: "list_ex (\<lambda>v. CHR ''$'' \<in> set (toString v)) (map Str ss)
      \<longleftrightarrow> (\<exists>s \<in> set ss. CHR ''$'' \<in> set s)"
    by (simp add: list_ex_iff toString_def)
  show ?thesis
  proof (cases "\<forall>s \<in> set ss. StringToNumber (strip_currency s) \<noteq> NaN")
    case True
    then have "isNumber (map Str ss) = Inr True"
      by (simp add: isNumber_strings isNaN_def list_all_iff)
    then show ?thesis
      using True assms(2) by (simp add: detectType_def assms(1) Let_def d)
  next
    case False
    then have "isNumber (map Str ss) = Inr False"
      by (simp add: isNumber_strings isNaN_def list_all_iff)
    then show ?thesis
      using False assms(2) by (simp add: detectType_def assms(1) Let_def)
  qed
qed

theorem detectType_numeric_witness:
  "detectType (\<lambda>s. NaN) [Str ''$1,200.50'', Null, Str '''', Str ''Infinity''] = Inr Currency
   \<and> detectType (\<lambda>s. NaN) [Str ''12'', Str ''n/a''] \<noteq> Inr Number"
proof -
  have v1: "validValues [Str ''$1,200.50'', Null, Str '''', Str ''Infinity'']
      = map Str [''$1,200.50'', ''Infinity'']"
    by (simp add: validValues_def)
  have v2: "validValues [Str ''12'', Str ''n/a''] = map Str [''12'', ''n/a'']"
    by (simp add: validValues_def)
  have "detectType (\<lambda>s. NaN) [Str ''$1,200.50'', Null, Str '''', Str ''Infinity''] = Inr Currency"
    using detectType_numeric [OF v1, of "\<lambda>s. NaN"]
      StringToNumber_currency StringToNumber_Infinity
    by simp
  moreover have "detectType (\<lambda>s. NaN) [Str ''12'', Str ''n/a''] \<noteq> Inr Number"
    using detectType_numeric [OF v2, of "\<lambda>s. NaN"] StringToNumber_na
    by simp
  ultimately show ?thesis by simp
qed

text \<open>
  A column of one short value, or of the same short value twice, is not a tag column,
  whatever \<^verbatim>\<open>Date.parse\<close> does: one distinct value is not less than half of one or
  of two.
\<close>

theorem detectType_identical_few:
  "StringToNumber (strip_currency ''abc'') = NaN \<and> length ''abc'' < 20
   \<and> (\<forall>Date_parse. detectType Date_parse [Str ''abc''] \<noteq> Inr Tag)
   \<and> (\<forall>Date_parse. detectType Date_parse [Str ''abc'', Str ''abc''] \<noteq> Inr Tag)"
  using StringToNumber_abc
  by (simp add: detectType_def validValues_def isNaN_def toString_def Let_def)

text \<open>
  C5, as the code has it. A column whose non-empty values are \<open>n \<ge> 1\<close> copies of one
  string shorter than 20 characters that neither converts to a number nor parses as a
  date is a \<open>Tag\<close> column when \<open>n \<ge> 3\<close>, and a \<open>Text\<close> column when \<open>n\<close> is 1 or 2.
\<close>

theorem detectType_identical:
  assumes vs: "validValues values = replicate n (Str v)"
    and n: "0 < n"
    and short: "length v < 20"
    and nonnum: "StringToNumber (strip_currency v) = NaN"
    and nondate: "Date_parse v = NaN"
  shows "detectType Date_parse values = Inr (if 3 \<le> n then Tag else Text)"
proof -
  obtain m where m: "n = Suc m" using n by (cases n) simp_all
  have num: "isNumber (replicate n (Str v)) = Inr False"
    using nonnum by (simp add: m isNaN_def)
  have rd: "remdups (replicate n (Str v)) = [Str v]" using n by (rule remdups_replicate_pos)
  have "2 * length (remdups (replicate n (Str v))) < length (replicate n (Str v)) \<longleftrightarrow> 3 \<le> n"
    by (simp add: rd) linarith
  then show ?thesis
    using n short nondate
    by (auto simp: detectType_def vs Let_def num isNaN_def list_all_iff toString_def)
qed

theorem detectType_identical_witness:
  "detectType (\<lambda>s. NaN) [Str ''abc'', Str ''abc'', Str ''abc''] = Inr Tag
   \<and> detectType (\<lambda>s. NaN) [Str ''abc'', Str '''', Str ''abc''] = Inr Text"
proof -
  have 1: "validValues [Str ''abc'', Str ''abc'', Str ''abc''] = replicate 3 (Str ''abc'')"
    by (simp add: validValues_def numeral_3_eq_3)
  have 2: "validValues [Str ''abc'', Str '''', Str ''abc''] = replicate 2 (Str ''abc'')"
    by (simp add: validValues_def numeral_2_eq_2)
  show ?thesis
    using detectType_identical [OF 1 _ _ StringToNumber_abc, of "\<lambda>s. NaN"]
      detectType_identical [OF 2 _ _ StringToNumber_abc, of "\<lambda>s. NaN"]
    by simp
qed

section \<open>CSV parser: proofs\<close>

lemma startsWith_single: "startsWith s [c] \<longleftrightarrow> (s \<noteq> [] \<and> hd s = c)"
  by (cases s) (simp_all add: startsWith_def)

lemma scan_plain:
  "\<forall>c \<in> set f. \<not> csv_special c \<Longrightarrow> \<not> insideQuotes st \<Longrightarrow>
   scan (f @ rest) st = scan rest (st\<lparr>currentCell := currentCell st @ f\<rparr>)"
proof (induction f arbitrary: st)
  case Nil
  then show ?case by simp
next
  case (Cons c f)
  then have c: "c \<noteq> DQUOTE" "c \<noteq> CHR '',''" "c \<noteq> CR" "c \<noteq> LF"
    by (simp_all add: csv_special_def)
  have "scan ((c # f) @ rest) st = scan (f @ rest) (st\<lparr>currentCell := currentCell st @ [c]\<rparr>)"
    using c by simp
  also have "\<dots> = scan rest (st\<lparr>currentCell := currentCell st @ [c]\<rparr>
      \<lparr>currentCell := currentCell (st\<lparr>currentCell := currentCell st @ [c]\<rparr>) @ f\<rparr>)"
    using Cons.prems by (intro Cons.IH) simp_all
  finally show ?case by simp
qed

lemma scan_escaped:
  "insideQuotes st \<Longrightarrow> \<not> startsWith rest [DQUOTE] \<Longrightarrow>
   scan (csv_escape f @ DQUOTE # rest) st =
     scan rest (st\<lparr>currentCell := currentCell st @ f, insideQuotes := False\<rparr>)"
proof (induction f arbitrary: st)
  case Nil
  then show ?case by (simp add: csv_escape_def)
next
  case (Cons c f)
  show ?case
  proof (cases "c = DQUOTE")
    case True
    have "scan (csv_escape (c # f) @ DQUOTE # rest) st =
        scan (csv_escape f @ DQUOTE # rest) (st\<lparr>currentCell := currentCell st @ [DQUOTE]\<rparr>)"
      using True Cons.prems(1) by (simp add: csv_escape_def startsWith_def)
    also have "\<dots> = scan rest (st\<lparr>currentCell := currentCell st @ [DQUOTE]\<rparr>
        \<lparr>currentCell := currentCell (st\<lparr>currentCell := currentCell st @ [DQUOTE]\<rparr>) @ f,
          insideQuotes := False\<rparr>)"
      using Cons.prems by (intro Cons.IH) simp_all
    finally show ?thesis using True by simp
  next
    case False
    have "scan (csv_escape (c # f) @ DQUOTE # rest) st =
        scan (csv_escape f @ DQUOTE # rest) (st\<lparr>currentCell := currentCell st @ [c]\<rparr>)"
      using False Cons.prems(1) by (simp add: csv_escape_def)
    also have "\<dots> = scan rest (st\<lparr>currentCell := currentCell st @ [c]\<rparr>
        \<lparr>currentCell := currentCell (st\<lparr>currentCell := currentCell st @ [c]\<rparr>) @ f,
          insideQuotes := False\<rparr>)"
      using Cons.prems by (intro Cons.IH) simp_all
    finally show ?thesis by simp
  qed
qed

lemma scan_field:
  assumes "\<not> insideQuotes st" "\<not> startsWith rest [DQUOTE]"
  shows "scan (csv_field f @ rest) st = scan rest (st\<lparr>currentCell := currentCell st @ f\<rparr>)"
proof (cases "list_ex csv_special f")
  case True
  have "scan (csv_field f @ rest) st =
      scan (csv_escape f @ DQUOTE # rest) (st\<lparr>insideQuotes := True\<rparr>)"
    using True assms(1) by (simp add: csv_field_def)
  also have "\<dots> = scan rest (st\<lparr>insideQuotes := True\<rparr>
      \<lparr>currentCell := currentCell (st\<lparr>insideQuotes := True\<rparr>) @ f, insideQuotes := False\<rparr>)"
    using assms(2) by (intro scan_escaped) simp_all
  also have "\<dots> = scan rest (st\<lparr>currentCell := currentCell st @ f\<rparr>)"
    using assms(1) by (cases st) simp
  finally show ?thesis .
next
  case False
  then have "\<forall>c \<in> set f. \<not> csv_special c" by (simp add: list_ex_iff)
  then show ?thesis using False assms(1) by (simp add: csv_field_def scan_plain)
qed

lemma scan_row:
  "\<not> insideQuotes st \<Longrightarrow> currentCell st = [] \<Longrightarrow> r \<noteq> [] \<Longrightarrow>
   scan (join_cells (map csv_field r) @ LF # rest) st =
     scan rest (st\<lparr>rowsData := rowsData st @ [currentRow st @ r], currentRow := [],
                  currentCell := []\<rparr>)"
proof (induction r arbitrary: st rule: join_cells.induct)
  case 1
  then show ?case by simp
next
  case (2 f)
  have "scan (join_cells (map csv_field [f]) @ LF # rest) st =
      scan (LF # rest) (st\<lparr>currentCell := currentCell st @ f\<rparr>)"
    using "2.prems" by (simp add: scan_field startsWith_def)
  then show ?case using "2.prems" by simp
next
  case (3 f g fs)
  have "scan (join_cells (map csv_field (f # g # fs)) @ LF # rest) st =
      scan (CHR '','' # join_cells (map csv_field (g # fs)) @ LF # rest)
        (st\<lparr>currentCell := currentCell st @ f\<rparr>)"
    using "3.prems" by (simp add: scan_field startsWith_def)
  also have "\<dots> = scan (join_cells (map csv_field (g # fs)) @ LF # rest)
      (st\<lparr>currentRow := currentRow st @ [f], currentCell := []\<rparr>)"
    using "3.prems" by simp
  also have "\<dots> = scan rest (st\<lparr>currentRow := currentRow st @ [f], currentCell := []\<rparr>
      \<lparr>rowsData := rowsData (st\<lparr>currentRow := currentRow st @ [f], currentCell := []\<rparr>)
          @ [currentRow (st\<lparr>currentRow := currentRow st @ [f], currentCell := []\<rparr>) @ (g # fs)],
        currentRow := [], currentCell := []\<rparr>)"
    using "3.prems" by (intro "3.IH") simp_all
  finally show ?case by simp
qed

lemma scan_toCSV:
  "\<not> insideQuotes st \<Longrightarrow> currentCell st = [] \<Longrightarrow> currentRow st = [] \<Longrightarrow>
   \<forall>r \<in> set m. r \<noteq> [] \<Longrightarrow>
   scan (toCSV m @ rest) st = scan rest (st\<lparr>rowsData := rowsData st @ m\<rparr>)"
proof (induction m arbitrary: st)
  case Nil
  then show ?case by (simp add: toCSV_def)
next
  case (Cons r m)
  have "scan (toCSV (r # m) @ rest) st =
      scan (join_cells (map csv_field r) @ LF # toCSV m @ rest) st"
    by (simp add: toCSV_def)
  also have "\<dots> = scan (toCSV m @ rest)
      (st\<lparr>rowsData := rowsData st @ [currentRow st @ r], currentRow := [], currentCell := []\<rparr>)"
    using Cons.prems by (intro scan_row) simp_all
  also have "\<dots> = scan rest
      (st\<lparr>rowsData := rowsData st @ [currentRow st @ r], currentRow := [], currentCell := []\<rparr>
        \<lparr>rowsData := rowsData (st\<lparr>rowsData := rowsData st @ [currentRow st @ r],
            currentRow := [], currentCell := []\<rparr>) @ m\<rparr>)"
    using Cons.prems by (intro Cons.IH) simp_all
  also have "\<dots> = scan rest (st\<lparr>rowsData := rowsData st @ r # m\<rparr>)"
    using Cons.prems by (cases st) simp
  finally show ?case .
qed

lemma scan_rows_toCSV:
  assumes "\<forall>r \<in> set m. r \<noteq> []"
  shows "scan_rows (toCSV m) = m"
  using scan_toCSV [OF _ _ _ assms, of
      "\<lparr>rowsData = [], currentRow = [], currentCell = [], insideQuotes = False\<rparr>" "[]"]
  by (simp add: scan_rows_def)

lemma fold_upd_other:
  "k \<notin> fst ` set ps \<Longrightarrow>
   fold (\<lambda>(h, idx) row. row(h \<mapsto> g idx)) ps (row0 :: TableRow) k = row0 k"
  by (induction ps arbitrary: row0) auto

lemma fold_upd_lookup:
  "distinct (map fst ps) \<Longrightarrow> (h, i) \<in> set ps \<Longrightarrow>
   fold (\<lambda>(h, idx) row. row(h \<mapsto> g idx)) ps (row0 :: TableRow) h = Some (g i)"
proof (induction ps arbitrary: row0)
  case Nil
  then show ?case by simp
next
  case (Cons p ps)
  show ?case
  proof (cases "p = (h, i)")
    case True
    then have "h \<notin> fst ` set ps" using Cons.prems(1) by auto
    then have "fold (\<lambda>(h, idx) row. row(h \<mapsto> g idx)) ps (row0(h \<mapsto> g i)) h
        = (row0(h \<mapsto> g i)) h"
      by (rule fold_upd_other)
    also have "\<dots> = Some (g i)" by simp
    finally show ?thesis unfolding True by (simp del: fun_upd_apply)
  next
    case False
    then have "(h, i) \<in> set ps" using Cons.prems(2) by simp
    moreover have "distinct (map fst ps)" using Cons.prems(1) by simp
    ultimately show ?thesis using Cons.IH by (cases p) simp
  qed
qed

text \<open>Without a header \<^verbatim>\<open>__proto__\<close> every assignment of the row builder is a map update.\<close>

lemma make_row_fold:
  assumes "''__proto__'' \<notin> set headers"
  shows "make_row rid headers r =
    fold (\<lambda>(h, idx) row. row(h \<mapsto> nth_or_empty r idx))
      (zip headers [0 ..< length headers]) [''id'' \<mapsto> rid]"
proof -
  have "(\<lambda>(h, idx) row. set_prop row h (nth_or_empty r idx)) p =
      (\<lambda>(h, idx) row. row(h \<mapsto> nth_or_empty r idx)) p"
    if "p \<in> set (zip headers [0 ..< length headers])" for p
  proof -
    obtain h idx where p: "p = (h, idx)" by (cases p)
    then have "h \<in> set headers" using that by (auto dest: set_zip_leftD)
    then have "h \<noteq> ''__proto__''" using assms by auto
    then show ?thesis by (simp add: p set_prop_def)
  qed
  then show ?thesis unfolding make_row_def by (intro fold_cong) simp_all
qed

lemma make_row_lookup:
  assumes "''__proto__'' \<notin> set headers" "distinct headers" "j < length headers"
    "length r = length headers"
  shows "get_prop (make_row rid headers r) (headers ! j) = Str (r ! j)"
proof -
  have d: "distinct (map fst (zip headers [0 ..< length headers]))"
    using assms(2) by simp
  have m: "(headers ! j, j) \<in> set (zip headers [0 ..< length headers])"
    using assms(3) by (auto simp: set_zip intro!: exI [of _ j])
  have p: "headers ! j \<noteq> ''__proto__''" using assms(1,3) by (metis nth_mem)
  have "make_row rid headers r (headers ! j) = Some (r ! j)"
    unfolding make_row_fold [OF assms(1)]
    using fold_upd_lookup [OF d m, of "nth_or_empty r" "[''id'' \<mapsto> rid]"] assms(3,4)
    by (simp add: nth_or_empty_def)
  then show ?thesis using p by (simp add: get_prop_def)
qed

lemma make_row_values:
  assumes "''__proto__'' \<notin> set headers" "distinct headers" "length r = length headers"
  shows "map (get_prop (make_row rid headers r)) headers = map Str r"
  using make_row_lookup [OF assms(1,2) _ assms(3)] assms(3) by (intro nth_equalityI) simp_all

lemma build_rows_values:
  "\<forall>r \<in> set dat. length r = length headers \<Longrightarrow> distinct headers \<Longrightarrow>
   ''__proto__'' \<notin> set headers \<Longrightarrow>
   map (\<lambda>row. map (get_prop row) headers) (build_rows ids headers dat acc) =
     map (\<lambda>row. map (get_prop row) headers) acc @ map (map Str) dat"
proof (induction dat arbitrary: acc)
  case Nil
  then show ?case by simp
next
  case (Cons r dat)
  have acc: "accepted_row headers r" using Cons.prems by (simp add: accepted_row_def)
  have "map (get_prop (make_row (ids (length acc)) headers r)) headers = map Str r"
    using Cons.prems by (intro make_row_values) simp_all
  then show ?case
    using acc Cons.IH [of "acc @ [make_row (ids (length acc)) headers r]"] Cons.prems
    by simp
qed

text \<open>The columns: their keys are the headers, and strings never make the inference fail.\<close>

lemma build_columns_keys:
  "build_columns Date_parse rs hs = Inr cols \<Longrightarrow> map key cols = hs"
  by (induction hs arbitrary: cols) (auto split: sum.splits)

lemma column_values_no_Obj:
  "h \<noteq> ''__proto__'' \<Longrightarrow> Obj \<notin> set (column_values rs h)"
  by (auto simp: column_values_def get_prop_def split: option.splits)

lemma build_columns_ok:
  "''__proto__'' \<notin> set hs \<Longrightarrow> \<exists>cols. build_columns Date_parse rs hs = Inr cols"
proof (induction hs)
  case Nil
  then show ?case by simp
next
  case (Cons h hs)
  then have "h \<noteq> ''__proto__''" by auto
  then obtain t where "detectType Date_parse (column_values rs h) = Inr t"
    using detectType_no_Obj [OF column_values_no_Obj] by blast
  moreover obtain cols where "build_columns Date_parse rs hs = Inr cols"
    using Cons by auto
  ultimately show ?case by simp
qed

text \<open>
  The round trip fails on four kinds of matrices. With two headers of the same name the
  row object keeps one value for both columns, and the cell \<^verbatim>\<open>x\<close> is lost. A data
  row that is one empty cell is written as an empty line and dropped as a trailing-newline
  artifact. A header with surrounding white space comes back trimmed. Under a header
  \<^verbatim>\<open>__proto__\<close> the row object stores nothing, and the type inference of that column
  ends the parse with a \<^verbatim>\<open>TypeError\<close>.
\<close>

theorem parseCSV_roundtrip_fails:
  "(\<forall>Date_parse ids. \<exists>t. parseCSV Date_parse ids (toCSV [[''a'', ''a''], [''x'', ''y'']]) = Inr t
       \<and> map (\<lambda>row. map (get_prop row) [''a'', ''a'']) (rows t) = [[Str ''y'', Str ''y'']])
   \<and> (\<forall>Date_parse ids. \<exists>t. parseCSV Date_parse ids (toCSV [[''h''], ['''']]) = Inr t
       \<and> rows t = [])
   \<and> (\<forall>Date_parse ids. \<exists>t. parseCSV Date_parse ids (toCSV [['' h''], [''x'']]) = Inr t
       \<and> map key (columns t) = [''h''])
   \<and> (\<forall>Date_parse ids. parseCSV Date_parse ids (toCSV [[''__proto__''], [''1'']])
       = Inl TypeError)"
proof -
  have 1: "scan_rows (toCSV [[''a'', ''a''], [''x'', ''y'']]) = [[''a'', ''a''], [''x'', ''y'']]"
    by (rule scan_rows_toCSV) simp
  have 2: "scan_rows (toCSV [[''h''], ['''']]) = [[''h''], ['''']]"
    by (rule scan_rows_toCSV) simp
  have 3: "scan_rows (toCSV [['' h''], [''x'']]) = [['' h''], [''x'']]"
    by (rule scan_rows_toCSV) simp
  have 4: "scan_rows (toCSV [[''__proto__''], [''1'']]) = [[''__proto__''], [''1'']]"
    by (rule scan_rows_toCSV) simp
  have a: "\<exists>t. parseCSV Date_parse ids (toCSV [[''a'', ''a''], [''x'', ''y'']]) = Inr t
       \<and> map (\<lambda>row. map (get_prop row) [''a'', ''a'']) (rows t) = [[Str ''y'', Str ''y'']]"
    for Date_parse ids
  proof -
    obtain cols where "build_columns Date_parse
        (build_rows ids [''a'', ''a''] [[''x'', ''y'']] []) [''a'', ''a''] = Inr cols"
      using build_columns_ok [of "[''a'', ''a'']"] by auto
    then show ?thesis
      unfolding parseCSV_def 1
      by (simp add: valid_row_def trim_def is_ws_def accepted_row_def make_row_def
          nth_or_empty_def set_prop_def get_prop_def Let_def)
  qed
  have b: "\<exists>t. parseCSV Date_parse ids (toCSV [[''h''], ['''']]) = Inr t \<and> rows t = []"
    for Date_parse ids
    unfolding parseCSV_def 2
    by (simp add: valid_row_def trim_def is_ws_def column_values_def detectType_def
        validValues_def Let_def)
  have c: "\<exists>t. parseCSV Date_parse ids (toCSV [['' h''], [''x'']]) = Inr t
       \<and> map key (columns t) = [''h'']"
    for Date_parse ids
  proof -
    obtain cols where cols: "build_columns Date_parse
        (build_rows ids [''h''] [[''x'']] []) [''h''] = Inr cols"
      using build_columns_ok [of "[''h'']"] by auto
    then have "map key cols = [''h'']" by (rule build_columns_keys)
    then show ?thesis
      using cols unfolding parseCSV_def 3
      by (simp add: valid_row_def trim_def is_ws_def Let_def del: build_rows.simps
          build_columns.simps)
  qed
  have d: "parseCSV Date_parse ids (toCSV [[''__proto__''], [''1'']]) = Inl TypeError"
    for Date_parse ids
    unfolding parseCSV_def 4
    by (simp add: valid_row_def trim_def is_ws_def accepted_row_def make_row_def
        nth_or_empty_def set_prop_def get_prop_def column_values_def detectType_def
        validValues_def Let_def)
  show ?thesis using a b c d by blast
qed

text \<open>
  C1, as the code has it. Take a matrix of cell values whose first row holds the headers:
  at least one header, the headers pairwise distinct, without leading or trailing white
  space and none of them \<^verbatim>\<open>__proto__\<close>, every data row as long as the header row, and
  no row that is a single empty cell. Written as CSV text, with quoting where a field
  holds a comma, a double quote or a line break and with double quotes doubled, it parses
  without error to a table whose column keys are the headers in order and whose rows,
  read by column key in column order, are the data rows in order, every cell value
  exactly as it was.
\<close>

theorem parseCSV_roundtrip:
  assumes hdr: "hdr \<noteq> []" "distinct hdr" "\<forall>h \<in> set hdr. trim h = h"
      "''__proto__'' \<notin> set hdr"
    and rect: "\<forall>r \<in> set dat. length r = length hdr"
    and blank: "\<forall>r \<in> set (hdr # dat). r \<noteq> [[]]"
  shows "\<exists>t. parseCSV Date_parse ids (toCSV (hdr # dat)) = Inr t
    \<and> map key (columns t) = hdr
    \<and> length (rows t) = length dat
    \<and> map (\<lambda>row. map (get_prop row) hdr) (rows t) = map (map Str) dat"
proof -
  have ne: "\<forall>r \<in> set (hdr # dat). r \<noteq> []" using hdr(1) rect by auto
  have sr: "scan_rows (toCSV (hdr # dat)) = hdr # dat" using ne by (rule scan_rows_toCSV)
  have v: "valid_row r" if "r \<in> set (hdr # dat)" for r
  proof -
    have "r \<noteq> []" "r \<noteq> [[]]" using that ne blank by auto
    then show ?thesis by (cases r; cases "tl r") (auto simp: valid_row_def)
  qed
  then have f: "filter valid_row (hdr # dat) = hdr # dat" by (simp add: filter_id_conv)
  have tr: "map trim hdr = hdr" using hdr(3) by (simp add: map_idI)
  obtain cols where cols: "build_columns Date_parse (build_rows ids hdr dat []) hdr = Inr cols"
    using build_columns_ok [OF hdr(4)] by blast
  define t where "t = \<lparr>rows = build_rows ids hdr dat [], columns = cols\<rparr>"
  have p: "parseCSV Date_parse ids (toCSV (hdr # dat)) = Inr t"
    unfolding parseCSV_def sr Let_def f by (simp add: tr t_def cols del: filter.simps)
  have k: "map key (columns t) = hdr" using build_columns_keys [OF cols] by (simp add: t_def)
  have c: "map (\<lambda>row. map (get_prop row) hdr) (rows t) = map (map Str) dat"
    using build_rows_values [OF rect hdr(2) hdr(4), of ids "[]"] by (simp add: t_def)
  have l: "length (rows t) = length dat"
    using arg_cong [OF c, of length] by simp
  show ?thesis using p k l c by blast
qed

theorem parseCSV_roundtrip_witness:
  "\<exists>t. parseCSV (\<lambda>s. NaN) (\<lambda>n. ''r'')
          (toCSV [[''name'', ''age''], [''Smith, John'', ''30''], [[DQUOTE, LF], '''']]) = Inr t
     \<and> map (\<lambda>row. map (get_prop row) [''name'', ''age'']) (rows t)
         = [[Str ''Smith, John'', Str ''30''], [Str [DQUOTE, LF], Str '''']]"
proof -
  have 1: "[''name'', ''age''] \<noteq> []" by simp
  have 2: "distinct [''name'', ''age'']" by simp
  have 3: "\<forall>h \<in> set [''name'', ''age'']. trim h = h" by (simp add: trim_def is_ws_def)
  have 4: "''__proto__'' \<notin> set [''name'', ''age'']" by simp
  have 5: "\<forall>r \<in> set [[''Smith, John'', ''30''], [[DQUOTE, LF], '''']].
      length r = length [''name'', ''age'']" by simp
  have 6: "\<forall>r \<in> set ([''name'', ''age''] # [[''Smith, John'', ''30''], [[DQUOTE, LF], '''']]).
      r \<noteq> [[]]" by simp
  obtain t where "parseCSV (\<lambda>s. NaN) (\<lambda>n. ''r'')
      (toCSV ([''name'', ''age''] # [[''Smith, John'', ''30''], [[DQUOTE, LF], '''']])) = Inr t"
    and "map (\<lambda>row. map (get_prop row) [''name'', ''age'']) (rows t)
      = map (map Str) [[''Smith, John'', ''30''], [[DQUOTE, LF], '''']]"
    using parseCSV_roundtrip [OF 1 2 3 4 5 6] by blast
  then show ?thesis by (intro exI [of _ t]) simp
qed

lemma scan_rowsData_nonempty:
  "[] \<notin> set (rowsData st) \<Longrightarrow> [] \<notin> set (rowsData (scan cs st))"
  by (induction cs st rule: scan.induct) auto

lemma scan_rows_nonempty: "[] \<notin> set (scan_rows content)"
proof -
  let ?st0 = "\<lparr>rowsData = [], currentRow = [], currentCell = [], insideQuotes = False\<rparr>"
  have "[] \<notin> set (rowsData (scan content ?st0))"
    by (rule scan_rowsData_nonempty) simp
  then show ?thesis by (simp add: scan_rows_def Let_def)
qed

lemma valid_row_iff: "r \<noteq> [] \<Longrightarrow> valid_row r \<longleftrightarrow> r \<noteq> [[]]"
  by (cases r) (auto simp: valid_row_def)

lemma filter_valid_row_empty:
  "filter valid_row (scan_rows content) = [] \<longleftrightarrow> (\<forall>r \<in> set (scan_rows content). r = [[]])"
proof -
  have "\<not> valid_row r \<longleftrightarrow> r = [[]]" if "r \<in> set (scan_rows content)" for r
  proof -
    have "r \<noteq> []" using that scan_rows_nonempty [of content] by auto
    then show ?thesis by (simp add: valid_row_iff)
  qed
  then show ?thesis by (simp add: filter_empty_conv)
qed

lemma recorded_updates:
  "recorded (st\<lparr>currentCell := currentCell st @ [x]\<rparr>)"
  "recorded (st\<lparr>insideQuotes := b\<rparr>) = recorded st"
  "recorded (st\<lparr>currentRow := currentRow st @ [y], currentCell := []\<rparr>)"
  "recorded (st\<lparr>rowsData := rowsData st @ [z], currentRow := [], currentCell := []\<rparr>)"
  by (simp_all add: recorded_def)

lemma recorded_scan: "recorded st \<Longrightarrow> recorded (scan cs st)"
  by (induction cs st rule: scan.induct) (auto simp: recorded_updates)

lemma recorded_first:
  assumes "c \<noteq> DQUOTE \<or> insideQuotes st \<and> startsWith cs [DQUOTE]"
  shows "recorded (scan (c # cs) st)"
proof (cases "insideQuotes st")
  case True
  show ?thesis
  proof (cases "c = DQUOTE")
    case c: True
    then have "scan (c # cs) st = scan (tl cs) (st\<lparr>currentCell := currentCell st @ [DQUOTE]\<rparr>)"
      using assms True by simp
    then show ?thesis by (simp only: recorded_scan recorded_updates)
  next
    case False
    then have "scan (c # cs) st = scan cs (st\<lparr>currentCell := currentCell st @ [c]\<rparr>)"
      using True by simp
    then show ?thesis by (simp only: recorded_scan recorded_updates)
  qed
next
  case False
  then have c: "c \<noteq> DQUOTE" using assms by blast
  consider (comma) "c = CHR '',''" | (nl) "c = CR \<or> c = LF"
    | (other) "c \<noteq> CHR '',''" "c \<noteq> CR" "c \<noteq> LF"
    by blast
  then show ?thesis
  proof cases
    case comma
    then have "scan (c # cs) st =
        scan cs (st\<lparr>currentRow := currentRow st @ [currentCell st], currentCell := []\<rparr>)"
      using False by simp
    then show ?thesis by (simp only: recorded_scan recorded_updates)
  next
    case nl
    then have "scan (c # cs) st =
        scan (if c = CR \<and> startsWith cs [LF] then tl cs else cs)
          (st\<lparr>rowsData := rowsData st @ [currentRow st @ [currentCell st]],
              currentRow := [], currentCell := []\<rparr>)"
      using False by auto
    then show ?thesis by (simp only: recorded_scan recorded_updates)
  next
    case other
    then have "scan (c # cs) st = scan cs (st\<lparr>currentCell := currentCell st @ [c]\<rparr>)"
      using c by simp
    then show ?thesis by (simp only: recorded_scan recorded_updates)
  qed
qed

lemma scan_rows_empty_iff_recorded:
  "scan_rows content = [] \<longleftrightarrow>
   \<not> recorded (scan content
        \<lparr>rowsData = [], currentRow = [], currentCell = [], insideQuotes = False\<rparr>)"
  by (auto simp: scan_rows_def recorded_def Let_def)

lemma scan_rows_empty_iff:
  "scan_rows content = [] \<longleftrightarrow>
   content = [] \<or> content = [DQUOTE] \<or> content = [DQUOTE, DQUOTE]"
proof -
  let ?st0 = "\<lparr>rowsData = [], currentRow = [], currentCell = [], insideQuotes = False\<rparr>"
  let ?st1 = "\<lparr>rowsData = [], currentRow = [], currentCell = [], insideQuotes = True\<rparr>"
  have start: "recorded (scan (c # cs) ?st0)" if "c \<noteq> DQUOTE" for c cs
    using that by (intro recorded_first) simp
  show ?thesis
  proof (cases content)
    case Nil
    then show ?thesis by (simp add: scan_rows_def)
  next
    case (Cons c cs)
    show ?thesis
    proof (cases "c = DQUOTE")
      case False
      then show ?thesis using start [of c cs] Cons
        by (simp add: scan_rows_empty_iff_recorded del: scan.simps)
    next
      case True
      then have s1: "scan content ?st0 = scan cs ?st1" using Cons by simp
      show ?thesis
      proof (cases cs)
        case Nil
        then show ?thesis using Cons True by (simp add: scan_rows_def)
      next
        case (Cons d ds)
        note cs = Cons
        show ?thesis
        proof (cases "d = DQUOTE")
          case False
          then have "recorded (scan (d # ds) ?st1)" by (intro recorded_first) simp
          then show ?thesis using s1 cs False \<open>content = c # cs\<close>
            by (simp add: scan_rows_empty_iff_recorded del: scan.simps)
        next
          case d: True
          show ?thesis
          proof (cases ds)
            case Nil
            then show ?thesis using cs d True \<open>content = c # cs\<close>
              by (simp add: scan_rows_def startsWith_def)
          next
            case (Cons e es)
            have "recorded (scan (d # ds) ?st1)"
            proof (cases "e = DQUOTE")
              case True
              then show ?thesis using Cons by (intro recorded_first) (simp add: startsWith_def)
            next
              case False
              then have "scan (d # ds) ?st1 = scan (e # es) ?st0"
                using d Cons by (simp add: startsWith_def)
              then show ?thesis using start [OF False, of es] by simp
            qed
            then show ?thesis using s1 cs Cons \<open>content = c # cs\<close>
              by (simp add: scan_rows_empty_iff_recorded del: scan.simps)
          qed
        qed
      qed
    qed
  qed
qed

text \<open>
  A file with a header row and no data row parses without error, to a table with two
  columns and no rows: the header row itself counts as valid data.
\<close>

theorem parseCSV_header_only:
  "\<forall>Date_parse ids. parseCSV Date_parse ids ''a,b'' =
     Inr \<lparr>rows = [], columns = [\<lparr>key = ''a'', label = ''A'', type = Text\<rparr>,
                                 \<lparr>key = ''b'', label = ''B'', type = Text\<rparr>]\<rparr>"
  by (simp add: parseCSV_def scan_rows_def startsWith_def valid_row_def trim_def is_ws_def
      capitalize_def toUpperCase_def column_values_def detectType_def validValues_def Let_def)

text \<open>
  C3, as the code has it. \<^verbatim>\<open>parseCSV\<close> fails with \<^verbatim>\<open>File appears empty\<close> exactly when
  the scan yields no row, which is when the input is empty or is one or two double
  quotes. It fails with \<^verbatim>\<open>No valid data found\<close> exactly when the scan yields rows and
  every one of them is a single empty cell. In every other case, that is as soon as one
  scanned row (the header row included) is not a single empty cell, it returns a table,
  provided no header is \<^verbatim>\<open>__proto__\<close>; whether a data row follows the header is not
  asked. The empty input fails with \<^verbatim>\<open>File appears empty\<close>.
\<close>

theorem parseCSV_failure:
  "(parseCSV Date_parse ids content = Inl (Error ''File appears empty'')
      \<longleftrightarrow> scan_rows content = [])
   \<and> (scan_rows content = []
      \<longleftrightarrow> content = [] \<or> content = [DQUOTE] \<or> content = [DQUOTE, DQUOTE])
   \<and> (parseCSV Date_parse ids content = Inl (Error ''No valid data found'')
      \<longleftrightarrow> scan_rows content \<noteq> [] \<and> (\<forall>r \<in> set (scan_rows content). r = [[]]))
   \<and> (''__proto__'' \<notin> set (csv_headers content) \<longrightarrow>
        ((\<exists>t. parseCSV Date_parse ids content = Inr t)
          \<longleftrightarrow> (\<exists>r \<in> set (scan_rows content). r \<noteq> [[]])))
   \<and> parseCSV Date_parse ids [] = Inl (Error ''File appears empty'')"
proof -
  define hs where "hs = csv_headers content"
  define rs where "rs = build_rows ids hs (tl (filter valid_row (scan_rows content))) []"
  have unfold: "parseCSV Date_parse ids content =
      (if scan_rows content = [] then Inl (Error ''File appears empty'')
       else if filter valid_row (scan_rows content) = [] then Inl (Error ''No valid data found'')
       else (case build_columns Date_parse rs hs of
               Inl e \<Rightarrow> Inl e
             | Inr cols \<Rightarrow> Inr \<lparr>rows = rs, columns = cols\<rparr>))"
    unfolding parseCSV_def Let_def hs_def rs_def csv_headers_def by simp
  have err: "build_columns Date_parse rs hs = Inl e \<Longrightarrow> e = TypeError" for e
  proof (induction hs arbitrary: e)
    case Nil
    then show ?case by simp
  next
    case (Cons h hs)
    have "detectType Date_parse (column_values rs h) = Inl e' \<Longrightarrow> e' = TypeError" for e'
    proof -
      assume d: "detectType Date_parse (column_values rs h) = Inl e'"
      have "isNumber vs = Inl e' \<Longrightarrow> e' = TypeError" for vs
        by (induction vs rule: isNumber.induct) (auto split: if_splits)
      then show ?thesis using d
        by (auto simp: detectType_def Let_def split: if_splits sum.splits bool.splits)
    qed
    then show ?case using Cons by (auto split: sum.splits)
  qed
  have e: "parseCSV Date_parse ids [] = Inl (Error ''File appears empty'')"
    by (simp add: parseCSV_def scan_rows_def)
  have a: "parseCSV Date_parse ids content = Inl (Error ''File appears empty'')
      \<longleftrightarrow> scan_rows content = []"
    using err by (auto simp: unfold split: sum.splits)
  have b: "parseCSV Date_parse ids content = Inl (Error ''No valid data found'')
      \<longleftrightarrow> scan_rows content \<noteq> [] \<and> (\<forall>r \<in> set (scan_rows content). r = [[]])"
    using err filter_valid_row_empty [of content] by (auto simp: unfold split: sum.splits)
  have c: "(\<exists>t. parseCSV Date_parse ids content = Inr t)
      \<longleftrightarrow> (\<exists>r \<in> set (scan_rows content). r \<noteq> [[]])"
    if np: "''__proto__'' \<notin> set (csv_headers content)"
  proof -
    obtain cols where "build_columns Date_parse rs hs = Inr cols"
      using build_columns_ok [OF np] unfolding hs_def by blast
    then show ?thesis
      using filter_valid_row_empty [of content] by (auto simp: unfold)
  qed
  show ?thesis using a b c e scan_rows_empty_iff by blast
qed

theorem parseCSV_failure_witness:
  "parseCSV (\<lambda>s. NaN) (\<lambda>n. ''r'') [LF, LF] = Inl (Error ''No valid data found'')
   \<and> parseCSV (\<lambda>s. NaN) (\<lambda>n. ''r'') [DQUOTE, DQUOTE] = Inl (Error ''File appears empty'')
   \<and> (\<exists>t. parseCSV (\<lambda>s. NaN) (\<lambda>n. ''r'') ''a,b'' = Inr t)"
proof -
  have 1: "scan_rows [LF, LF] = [[[]], [[]]]" by (simp add: scan_rows_def startsWith_def)
  have 2: "scan_rows ''a,b'' = [[''a'', ''b'']]" by (simp add: scan_rows_def startsWith_def)
  have 3: "''__proto__'' \<notin> set (csv_headers ''a,b'')"
    by (simp add: csv_headers_def 2 valid_row_def trim_def is_ws_def)
  show ?thesis
    using parseCSV_failure [of "\<lambda>s. NaN" "\<lambda>n. ''r''" "[LF, LF]"]
      parseCSV_failure [of "\<lambda>s. NaN" "\<lambda>n. ''r''" "[DQUOTE, DQUOTE]"]
      parseCSV_failure [of "\<lambda>s. NaN" "\<lambda>n. ''r''" "''a,b''"]
    by (simp add: 1 2 3)
qed

text \<open>
  Two tables that the parser builds and that the formatting proofs start from: a file
  with a column named \<^verbatim>\<open>id\<close>, whose cell replaces the generated id of the row, and a
  file with a cell that starts with a space.
\<close>

lemma parseCSV_id_header:
  "\<forall>Date_parse ids. \<exists>t. parseCSV Date_parse ids (''id,name'' @ [LF] @ ''5,x'') = Inr t
     \<and> map key (columns t) = [''id'', ''name'']
     \<and> rows t = [[''id'' \<mapsto> ''5'', ''name'' \<mapsto> ''x'']]"
proof (intro allI)
  fix Date_parse :: "string \<Rightarrow> js_number" and ids :: "nat \<Rightarrow> string"
  have s: "scan_rows (''id,name'' @ [LF] @ ''5,x'') = [[''id'', ''name''], [''5'', ''x'']]"
    by (simp add: scan_rows_def startsWith_def)
  have r: "build_rows ids [''id'', ''name''] [[''5'', ''x'']] []
      = [[''id'' \<mapsto> ''5'', ''name'' \<mapsto> ''x'']]"
    by (simp add: accepted_row_def make_row_def nth_or_empty_def set_prop_def)
  obtain cols where cols: "build_columns Date_parse
      [[''id'' \<mapsto> ''5'', ''name'' \<mapsto> ''x'']] [''id'', ''name''] = Inr cols"
    using build_columns_ok [of "[''id'', ''name'']"] by auto
  then have "map key cols = [''id'', ''name'']" by (rule build_columns_keys)
  then show "\<exists>t. parseCSV Date_parse ids (''id,name'' @ [LF] @ ''5,x'') = Inr t
     \<and> map key (columns t) = [''id'', ''name'']
     \<and> rows t = [[''id'' \<mapsto> ''5'', ''name'' \<mapsto> ''x'']]"
    using cols unfolding parseCSV_def s
    by (simp add: valid_row_def trim_def is_ws_def r Let_def del: build_rows.simps
        build_columns.simps)
qed

lemma parseCSV_leading_space:
  "\<forall>Date_parse ids. \<exists>t. parseCSV Date_parse ids (''name'' @ [LF] @ '' abc'') = Inr t
     \<and> map key (columns t) = [''name'']
     \<and> rows t = [[''id'' \<mapsto> ids 0, ''name'' \<mapsto> '' abc'']]"
proof (intro allI)
  fix Date_parse :: "string \<Rightarrow> js_number" and ids :: "nat \<Rightarrow> string"
  have s: "scan_rows (''name'' @ [LF] @ '' abc'') = [[''name''], ['' abc'']]"
    by (simp add: scan_rows_def startsWith_def)
  have r: "build_rows ids [''name''] [['' abc'']] []
      = [[''id'' \<mapsto> ids 0, ''name'' \<mapsto> '' abc'']]"
    by (simp add: accepted_row_def make_row_def nth_or_empty_def set_prop_def)
  obtain cols where cols: "build_columns Date_parse
      [[''id'' \<mapsto> ids 0, ''name'' \<mapsto> '' abc'']] [''name''] = Inr cols"
    using build_columns_ok [of "[''name'']"] by auto
  then have "map key cols = [''name'']" by (rule build_columns_keys)
  then show "\<exists>t. parseCSV Date_parse ids (''name'' @ [LF] @ '' abc'') = Inr t
     \<and> map key (columns t) = [''name'']
     \<and> rows t = [[''id'' \<mapsto> ids 0, ''name'' \<mapsto> '' abc'']]"
    using cols unfolding parseCSV_def s
    by (simp add: valid_row_def trim_def is_ws_def r Let_def del: build_rows.simps
        build_columns.simps)
qed

section \<open>Identifier generator: proofs\<close>

lemma fraction_digits36_numeral:
  "fraction_digits36 (numeral n) k e =
     (if k = 0 then []
      else radix36_digit (36 * k div 2 ^ e) # fraction_digits36 (pred_numeral n) (36 * k mod 2 ^ e) e)"
  by (simp add: numeral_eq_Suc)

lemma radix36_digit_alphabet:
  "d < 36 \<Longrightarrow> radix36_digit d \<in> set ''0123456789abcdefghijklmnopqrstuvwxyz''"
  unfolding radix36_digit_def by (rule nth_mem) simp

lemma fraction_digits36_alphabet:
  "k < 2 ^ e \<Longrightarrow> set (fraction_digits36 n k e) \<subseteq> set ''0123456789abcdefghijklmnopqrstuvwxyz''"
proof (induction n arbitrary: k)
  case 0
  then show ?case by simp
next
  case (Suc n)
  have "36 * k < 36 * 2 ^ e" using Suc.prems by simp
  then have d: "36 * k div 2 ^ e < 36" by (simp add: less_mult_imp_div_less)
  have m: "36 * k mod 2 ^ e < (2 :: nat) ^ e" by simp
  show ?case
    using radix36_digit_alphabet [OF d] Suc.IH [OF m]
    by (simp del: set_simps(2) add: list.set(2))
qed

lemma substr_2_9:
  "substr s 2 9 = take 9 (drop 2 s)"
proof (cases "length s \<le> 2")
  case True
  then have "drop 2 s = []" by simp
  moreover have "substr s 2 9 = []" using True by (auto simp: substr_def Let_def min_def)
  ultimately show ?thesis by simp
next
  case False
  define n where "n = length s - 2"
  have len: "int (length s) = int n + 2" using False by (simp add: n_def)
  have "substr s 2 9 = take (nat (min (2 + min 9 (int n + 2)) (int n + 2) - 2)) (drop 2 s)"
    by (simp add: substr_def Let_def len)
  also have "nat (min (2 + min 9 (int n + 2)) (int n + 2) - 2) = min 9 n"
    by (simp add: min_def)
  also have "take (min 9 n) (drop 2 s) = take 9 (drop 2 s)"
    by (simp add: n_def min_def)
  finally show ?thesis .
qed

text \<open>The text of a number in \<open>[0, 1)\<close>: \<^verbatim>\<open>0\<close>, or \<^verbatim>\<open>0.\<close> and the digits.\<close>

lemma toString36_shape:
  "toString36 radix_digits k e =
     (if k = 0 then ''0''
      else ''0.'' @ (if 36 ^ 10 * k mod 2 ^ e = 0 then fraction_digits36 10 k e
                      else radix_digits k e))"
  by (simp add: toString36_def)

text \<open>
  The length of the token depends on the random number, whatever the engine: one
  character for \<open>1/2\<close>, whose text is \<^verbatim>\<open>0.i\<close>, none for \<open>0\<close>, whose text is
  \<^verbatim>\<open>0\<close>, and nine for \<open>1/2\<^sup>1\<^sup>8\<close>, whose text is \<^verbatim>\<open>0.0006enrk9\<close>.
\<close>

theorem generateId_lengths:
  "\<forall>radix_digits.
     toString36 radix_digits 1 1 = ''0.i'' \<and> generateId radix_digits 1 1 = ''i''
     \<and> toString36 radix_digits 0 0 = ''0'' \<and> generateId radix_digits 0 0 = ''''
     \<and> toString36 radix_digits 1 18 = ''0.0006enrk9''
     \<and> generateId radix_digits 1 18 = ''0006enrk9''"
  by (simp add: generateId_def toString36_def substr_2_9 radix36_digit_def Let_def
      fraction_digits36_numeral)

text \<open>
  C7, as the code has it. For every random number \<open>k / 2\<^sup>e\<close> in \<open>[0, 1)\<close> and every
  engine, the token is made of the first nine characters that \<^verbatim>\<open>toString(36)\<close> prints
  after \<^verbatim>\<open>0.\<close>, or of all of them when they are fewer: it is empty for zero, and for
  a number printed as \<^verbatim>\<open>0.\<close> and \<open>n\<close> digits it is the first \<open>min 9 n\<close> of these
  digits. So the token never has more than nine characters, and its length is not fixed.
  Its characters are among \<^verbatim>\<open>0-9a-z\<close> when the digits of the engine are.
\<close>

theorem generateId_bounded:
  assumes "k < 2 ^ e"
  shows "(k = 0 \<longrightarrow> generateId radix_digits k e = [])
    \<and> (0 < k \<longrightarrow>
         (\<exists>ds. toString36 radix_digits k e = ''0.'' @ ds
            \<and> generateId radix_digits k e = take 9 ds
            \<and> length (generateId radix_digits k e) = min 9 (length ds)))
    \<and> length (generateId radix_digits k e) \<le> 9
    \<and> (set (radix_digits k e) \<subseteq> set ''0123456789abcdefghijklmnopqrstuvwxyz'' \<longrightarrow>
         set (generateId radix_digits k e) \<subseteq> set ''0123456789abcdefghijklmnopqrstuvwxyz'')"
proof -
  define ds where "ds = (if 36 ^ 10 * k mod 2 ^ e = 0 then fraction_digits36 10 k e
    else radix_digits k e)"
  have zero: "generateId radix_digits k e = []" if "k = 0"
    using that by (simp add: generateId_def toString36_def substr_2_9)
  have shape: "toString36 radix_digits k e = ''0.'' @ ds" if "0 < k"
    using that by (simp add: toString36_shape ds_def)
  have tok: "generateId radix_digits k e = take 9 ds" if "0 < k"
    using shape [OF that] by (simp add: generateId_def substr_2_9)
  have len: "length (generateId radix_digits k e) \<le> 9"
    by (simp add: generateId_def substr_2_9)
  have alphabet: "set (generateId radix_digits k e) \<subseteq> set ''0123456789abcdefghijklmnopqrstuvwxyz''"
    if r: "set (radix_digits k e) \<subseteq> set ''0123456789abcdefghijklmnopqrstuvwxyz''"
  proof (cases "k = 0")
    case True
    then show ?thesis using zero by simp
  next
    case False
    have "set ds \<subseteq> set ''0123456789abcdefghijklmnopqrstuvwxyz''"
    proof (cases "36 ^ 10 * k mod 2 ^ e = 0")
      case True
      then have "ds = fraction_digits36 10 k e" by (simp add: ds_def)
      then show ?thesis using fraction_digits36_alphabet [OF assms, of 10] by (simp only:)
    next
      case False
      then have "ds = radix_digits k e" by (simp add: ds_def)
      then show ?thesis using r by (simp only:)
    qed
    moreover have "set (take 9 ds) \<subseteq> set ds" by (rule set_take_subset)
    ultimately show ?thesis using tok False by auto
  qed
  have "\<exists>ds. toString36 radix_digits k e = ''0.'' @ ds
      \<and> generateId radix_digits k e = take 9 ds
      \<and> length (generateId radix_digits k e) = min 9 (length ds)" if "0 < k"
    using shape [OF that] tok [OF that] by (intro exI [of _ ds]) (simp add: min.commute)
  then show ?thesis using zero len alphabet by blast
qed

text \<open>
  An engine that prints \<^verbatim>\<open>0.4fzyo82mvyr\<close> for \<open>1/2\<^sup>2\<^sup>1\<close>, a number with eleven digits
  in base 36, gives the token \<^verbatim>\<open>4fzyo82mv\<close>.
\<close>

theorem generateId_bounded_witness:
  "generateId (\<lambda>k e. ''4fzyo82mvyr'') 1 21 = ''4fzyo82mv''
   \<and> length (generateId (\<lambda>k e. ''4fzyo82mvyr'') 1 21) = min 9 (length ''4fzyo82mvyr'')
   \<and> set (generateId (\<lambda>k e. ''4fzyo82mvyr'') 1 21) \<subseteq> set ''0123456789abcdefghijklmnopqrstuvwxyz''"
proof -
  have t: "toString36 (\<lambda>k e. ''4fzyo82mvyr'') 1 21 = ''0.'' @ ''4fzyo82mvyr''"
    by (simp add: toString36_def)
  have k: "(1 :: nat) < 2 ^ 21" by simp
  have a: "set ''4fzyo82mvyr'' \<subseteq> set ''0123456789abcdefghijklmnopqrstuvwxyz''" by simp
  obtain ds where "toString36 (\<lambda>k e. ''4fzyo82mvyr'') 1 21 = ''0.'' @ ds"
    and g: "generateId (\<lambda>k e. ''4fzyo82mvyr'') 1 21 = take 9 ds"
    and l: "length (generateId (\<lambda>k e. ''4fzyo82mvyr'') 1 21) = min 9 (length ds)"
    using generateId_bounded [OF k, of "\<lambda>k e. ''4fzyo82mvyr''"] by auto
  then have ds: "ds = ''4fzyo82mvyr''" using t by simp
  have "set (generateId (\<lambda>k e. ''4fzyo82mvyr'') 1 21)
      \<subseteq> set ''0123456789abcdefghijklmnopqrstuvwxyz''"
    using generateId_bounded [OF k, of "\<lambda>k e. ''4fzyo82mvyr''"] a by blast
  then show ?thesis using g l unfolding ds by simp
qed

end
